theory Spec2Isabelle
  imports Main
begin

section \<open>Text\<close>

text \<open>
  Python strings are modelled as \<open>string\<close>: a character is a code point below 256,
  and text with other code points is outside the model. The white space of
  \<open>strip()\<close> is the one of \<open>str.isspace\<close> on these code points: 9 to 13,
  28 to 32, 133 (next line) and 160 (no-break space). The case mappings are modelled on
  the 26 letters of ASCII: on the other code points below 256 the results of Python are
  no ASCII characters (or, for the sharp s, two letters S), so no comparison of the code
  with \<open>[ARCHIVE]\<close>, \<open>[INBOX]\<close>, \<open>subject\<close> or \<open>from\<close> depends on them.
\<close>

abbreviation LF :: char where
  "LF \<equiv> CHR 0x0A"

abbreviation CR :: char where
  "CR \<equiv> CHR 0x0D"

definition py_isspace :: "char \<Rightarrow> bool" where
  "py_isspace c = (c \<in> set [CHR 0x09, CHR 0x0A, CHR 0x0B, CHR 0x0C, CHR 0x0D,
                               CHR 0x1C, CHR 0x1D, CHR 0x1E, CHR 0x1F, CHR 0x20,
                               CHR 0x85, CHR 0xA0])"

definition lower_letters :: string where
  "lower_letters = ''abcdefghijklmnopqrstuvwxyz''"

definition upper_letters :: string where
  "upper_letters = ''ABCDEFGHIJKLMNOPQRSTUVWXYZ''"

definition upper_char :: "char \<Rightarrow> char" where
  "upper_char c = (case map_of (zip lower_letters upper_letters) c of Some u \<Rightarrow> u | None \<Rightarrow> c)"

definition lower_char :: "char \<Rightarrow> char" where
  "lower_char c = (case map_of (zip upper_letters lower_letters) c of Some l \<Rightarrow> l | None \<Rightarrow> c)"

definition py_upper :: "string \<Rightarrow> string" where
  "py_upper s = map upper_char s"

definition py_lower :: "string \<Rightarrow> string" where
  "py_lower s = map lower_char s"

text \<open>\<open>s.strip()\<close>: the white space at both ends is removed.\<close>

definition py_strip :: "string \<Rightarrow> string" where
  "py_strip s = rev (dropWhile py_isspace (rev (dropWhile py_isspace s)))"

text \<open>\<open>sep.join(parts)\<close>.\<close>

fun py_join :: "string \<Rightarrow> string list \<Rightarrow> string" where
  "py_join sep [] = []"
| "py_join sep [p] = p"
| "py_join sep (p # q # ps) = p @ sep @ py_join sep (q # ps)"

section \<open>The Decision Store: the file inbox\_saved.txt\<close>

text \<open>
  The file is its text, \<open>None\<close> when it does not exist. Iterating over a file opened in
  text mode yields its lines, each with its line end: Python's universal newlines read
  \<open>\n\<close>, \<open>\r\<close> and \<open>\r\n\<close> as one line end \<open>\n\<close>; a last line with no
  line end is yielded as it is. The model covers a missing file (FileNotFoundError); any
  other failure of the file system is outside it.
\<close>

fun readlines :: "string \<Rightarrow> string list" where
  "readlines [] = []"
| "readlines (c # cs) =
     (if c = LF then [LF] # readlines cs
      else if c = CR then
        (case cs of
           [] \<Rightarrow> [[LF]]
         | d # ds \<Rightarrow> if d = LF then [LF] # readlines ds else [LF] # readlines cs)
      else (case readlines cs of
              [] \<Rightarrow> [[c]]
            | l # ls \<Rightarrow> (c # l) # ls))"

text \<open>The identifiers of the file, one for each line, in the order of the file.\<close>

definition stored_ids :: "string option \<Rightarrow> string list" where
  "stored_ids f = (case f of None \<Rightarrow> [] | Some text \<Rightarrow> map py_strip (readlines text))"

text \<open>
  \<^verbatim>\<open>
  def load_inbox_saved_ids():
      try:
          with open(INBOX_SAVED_FILE, 'r') as f:
              return set(line.strip() for line in f)
      except FileNotFoundError:
          return set()
  \<close>
\<close>

definition load_inbox_saved_ids :: "string option \<Rightarrow> string set" where
  "load_inbox_saved_ids f =
     (case f of
        None \<Rightarrow> {}
      | Some text \<Rightarrow> set (map py_strip (readlines text)))"

text \<open>
  \<^verbatim>\<open>
  def save_inbox_id(message_id):
      with open(INBOX_SAVED_FILE, 'a') as f:
          f.write(message_id + '\n')
  \<close>
  Mode \<open>'a'\<close> creates a missing file.
\<close>

definition save_inbox_id :: "string \<Rightarrow> string option \<Rightarrow> string option" where
  "save_inbox_id message_id f =
     Some ((case f of None \<Rightarrow> [] | Some text \<Rightarrow> text) @ message_id @ [LF])"

text \<open>
  A store file is well formed when it is missing, empty, or ends with a line end
  \<open>\n\<close>: every file that \<open>save_inbox_id\<close> has written is.
\<close>

definition store_wf :: "string option \<Rightarrow> bool" where
  "store_wf f = (case f of None \<Rightarrow> True | Some text \<Rightarrow> text = [] \<or> last text = LF)"

text \<open>
  An identifier is clean when \<open>strip()\<close> leaves it as it is and no line end occurs
  in it.
\<close>

definition clean_id :: "string \<Rightarrow> bool" where
  "clean_id i = (py_strip i = i \<and> LF \<notin> set i \<and> CR \<notin> set i)"

section \<open>The remote services\<close>

text \<open>
  What the Gmail API returns, as far as \<open>process_inbox\<close> reads it. A message stub of a
  listing is its \<open>'id'\<close>; a header has its \<open>'name'\<close> and its \<open>'value'\<close>, as
  Gmail's schema says; every key read with \<open>.get(key, default)\<close> is optional.
\<close>

record results =
  messages :: "string list option"
  nextPageToken :: "string option"

record header =
  header_name :: string
  header_value :: string

record part =
  headers :: "header list option"

record message =
  payload :: "part option"
  snippet :: "string option"

text \<open>An entry of classified\_emails.json, and the summary of an email given to Gemini.\<close>

record example =
  ex_subject :: string
  ex_sender :: string
  ex_body_snippet :: string
  ex_reason :: string
  ex_action :: string

record email_data =
  email_id :: string
  email_subject :: string
  email_sender :: string
  email_snippet :: string

text \<open>
  The environment of a run. The remote services (the mailbox behind the Gmail API and the
  Gemini model) have a state \<open>'w\<close> of their own, which every call may read and
  change; a call returns its result, or \<open>None\<close> (\<open>False\<close> for the mutation) when it
  raises an exception, and the new state. \<open>gmail_service\<close> tells whether
  \<open>get_gmail_service()\<close> returned a service, \<open>classified_examples\<close> is what
  \<open>load_classified_emails()\<close> returned, \<open>GEMINI_API_KEY\<close> is the environment
  variable. \<open>generate_content\<close> returns \<open>response.text\<close>.
\<close>

record 'w env =
  gmail_service :: bool
  classified_examples :: "example list"
  GEMINI_API_KEY :: "string option"
  messages_list :: "string option \<Rightarrow> 'w \<Rightarrow> results option \<times> 'w"
  messages_get :: "string \<Rightarrow> 'w \<Rightarrow> message option \<times> 'w"
  messages_modify :: "string \<Rightarrow> 'w \<Rightarrow> bool \<times> 'w"
  generate_content :: "string \<Rightarrow> 'w \<Rightarrow> string option \<times> 'w"

text \<open>
  What a run does to the outside, in order: the calls of the Gmail API and of Gemini, the
  appends to the Decision Store, the identifiers skipped, and the error message of the
  handler of \<open>process_inbox\<close>.
\<close>

datatype event =
    ListCall "string option"
  | Skipped string
  | GetCall string
  | OracleCall string string
  | ModifyCall string
  | SaveCall string
  | ErrorLogged

text \<open>
  The state: the remote services, the file inbox\_saved.txt and the trace, which outlive a
  run, and the local variables of \<open>process_inbox\<close>.
\<close>

record 'w state =
  remote :: 'w
  inbox_saved_file :: "string option"
  trace :: "event list"
  saved_inbox_ids :: "string set"
  processed_count :: nat
  archived_count :: nat
  inbox_count :: nat

section \<open>Classification\<close>

definition example_parts :: "example \<Rightarrow> string list" where
  "example_parts e =
     [''Subject: '' @ ex_subject e,
      ''Sender: '' @ ex_sender e,
      ''Snippet: '' @ ex_body_snippet e,
      ''Reason: '' @ ex_reason e,
      ''Decision: ['' @ py_upper (ex_action e) @ '']'',
      ''---'']"

definition prompt_head :: "string list" where
  "prompt_head =
     [''You are an email classification assistant. Your task is to decide if an email should be archived or kept in the inbox.'',
      ''Based on the provided subject, sender, and body snippet, respond with either '' @ [CHR 0x27] @ ''[ARCHIVE]'' @ [CHR 0x27] @ '' or '' @ [CHR 0x27] @ ''[INBOX]'' @ [CHR 0x27] @ ''. Do not add any other text.'',
      ''Here are some examples of how emails were classified:'']"

definition prompt_topics :: "string list" where
  "prompt_topics =
     [[LF, LF] @ ''Likely topics for archival: TOS updates, promotional emails, newsletters, content that is otherwise not-actionable to contain information the user will ever need to reference.'' @ [LF],
      ''Likely topics for inbox: anything that is actionable, important, or time-sensitive. This includes emails from friends and family, recent orders, bills, medical documentation, school notifications, etc.'' @ [LF, LF] @ ''----'' @ [LF, LF]]"

definition email_parts :: "email_data \<Rightarrow> string list" where
  "email_parts d =
     [''Now, classify the following email:'',
      ''Subject: '' @ email_subject d,
      ''Sender: '' @ email_sender d,
      ''Snippet: '' @ email_snippet d,
      ''Decision:'']"

text \<open>
  The prompt, lines 94 to 118 of main.py: the parts joined with line ends. An example has
  the five keys that training\_data.py writes, each a string.
\<close>

definition build_prompt :: "email_data \<Rightarrow> example list \<Rightarrow> string" where
  "build_prompt d examples =
     py_join [LF]
       (prompt_head @ concat (map example_parts examples) @ prompt_topics @ email_parts d)"

text \<open>
  The reading of Gemini's answer, lines 125 to 131 of main.py:
  \<^verbatim>\<open>
  decision = response.text.strip().upper()
  if decision in ["[ARCHIVE]", "[INBOX]"]:
      return decision
  else:
      return None
  \<close>
\<close>

definition gemini_decision :: "string \<Rightarrow> string option" where
  "gemini_decision text =
     (let decision = py_upper (py_strip text)
      in if decision \<in> set [''[ARCHIVE]'', ''[INBOX]''] then Some decision else None)"

text \<open>
  \<open>classify_email_with_gemini\<close>: no key (\<open>None\<close> or the empty string), no call;
  an exception of the call, or of reading \<open>response.text\<close>, is caught and gives
  \<open>None\<close>. The construction of the client before the \<open>try\<close> is taken to succeed.
\<close>

definition classify_email_with_gemini ::
  "'w env \<Rightarrow> email_data \<Rightarrow> example list \<Rightarrow> 'w state \<Rightarrow> string option \<times> 'w state" where
  "classify_email_with_gemini env d examples s =
     (if GEMINI_API_KEY env = None \<or> GEMINI_API_KEY env = Some [] then (None, s)
      else
        (let prompt = build_prompt d examples;
             (r, w) = generate_content env prompt (remote s);
             s1 = s\<lparr>remote := w, trace := trace s @ [OracleCall (email_id d) prompt]\<rparr>
         in case r of
              None \<Rightarrow> (None, s1)
            | Some text \<Rightarrow> (gemini_decision text, s1)))"

section \<open>The pipeline\<close>

text \<open>
  Lines 178 to 189 of main.py: the subject and the sender are the values of the first header
  named so, whatever the case of its name, \<open>'N/A'\<close> when there is none; the snippet is
  \<open>''\<close> when the message has none.
\<close>

definition header_or_NA :: "string \<Rightarrow> header list \<Rightarrow> string" where
  "header_or_NA key hs =
     (case find (\<lambda>h. py_lower (header_name h) = key) hs of
        None \<Rightarrow> ''N/A''
      | Some h \<Rightarrow> header_value h)"

definition message_headers :: "message \<Rightarrow> header list" where
  "message_headers msg =
     (case payload msg of
        None \<Rightarrow> []
      | Some p \<Rightarrow> (case headers p of None \<Rightarrow> [] | Some l \<Rightarrow> l))"

definition email_data_of :: "string \<Rightarrow> message \<Rightarrow> email_data" where
  "email_data_of msg_id msg =
     (let hs = message_headers msg
      in \<lparr>email_id = msg_id,
          email_subject = header_or_NA ''subject'' hs,
          email_sender = header_or_NA ''from'' hs,
          email_snippet = (case snippet msg of None \<Rightarrow> [] | Some t \<Rightarrow> t)\<rparr>)"

datatype outcome = Completed | Raised

text \<open>
  The body of the loop over the messages of a page, lines 169 to 213: \<open>Raised\<close> when a
  call of the Gmail API raises, with the state as the exception leaves it.
\<close>

definition process_message :: "'w env \<Rightarrow> string \<Rightarrow> 'w state \<Rightarrow> outcome \<times> 'w state" where
  "process_message env msg_id s =
     (if msg_id \<in> saved_inbox_ids s then (Completed, s\<lparr>trace := trace s @ [Skipped msg_id]\<rparr>)
      else
        (let (m, w) = messages_get env msg_id (remote s);
             s1 = s\<lparr>remote := w, trace := trace s @ [GetCall msg_id]\<rparr>
         in case m of
              None \<Rightarrow> (Raised, s1)
            | Some msg \<Rightarrow>
                (let (decision, s2) =
                       classify_email_with_gemini env (email_data_of msg_id msg)
                         (classified_examples env) s1;
                     s3 = s2\<lparr>processed_count := processed_count s2 + 1\<rparr>
                 in if decision = Some ''[ARCHIVE]'' then
                      (let (ok, w') = messages_modify env msg_id (remote s3);
                           s4 = s3\<lparr>remote := w', trace := trace s3 @ [ModifyCall msg_id]\<rparr>
                       in if ok then (Completed, s4\<lparr>archived_count := archived_count s4 + 1\<rparr>)
                          else (Raised, s4))
                    else if decision = Some ''[INBOX]'' then
                      (Completed,
                       s3\<lparr>inbox_saved_file := save_inbox_id msg_id (inbox_saved_file s3),
                          trace := trace s3 @ [SaveCall msg_id],
                          saved_inbox_ids := insert msg_id (saved_inbox_ids s3),
                          inbox_count := inbox_count s3 + 1\<rparr>)
                    else (Completed, s3))))"

text \<open>\<open>for message_stub in messages\<close>: an exception leaves the loop.\<close>

fun process_messages :: "'w env \<Rightarrow> string list \<Rightarrow> 'w state \<Rightarrow> outcome \<times> 'w state" where
  "process_messages env [] s = (Completed, s)"
| "process_messages env (msg_id # rest) s =
     (case process_message env msg_id s of
        (Raised, s') \<Rightarrow> (Raised, s')
      | (Completed, s') \<Rightarrow> process_messages env rest s')"

datatype loop_ctl = Break | Continue string

text \<open>
  The body of \<open>while True\<close>, lines 157 to 224: one page. The handler of the
  \<open>try\<close> prints the error and leaves the loop.
\<close>

text \<open>\<open>results.get('messages', [])\<close>.\<close>

definition listed :: "results \<Rightarrow> string list" where
  "listed res = (case messages res of None \<Rightarrow> [] | Some l \<Rightarrow> l)"

definition loop_body :: "'w env \<Rightarrow> string option \<Rightarrow> 'w state \<Rightarrow> loop_ctl \<times> 'w state" where
  "loop_body env page_token s =
     (let (r, w) = messages_list env page_token (remote s);
          s1 = s\<lparr>remote := w, trace := trace s @ [ListCall page_token]\<rparr>
      in case r of
           None \<Rightarrow> (Break, s1\<lparr>trace := trace s1 @ [ErrorLogged]\<rparr>)
         | Some res \<Rightarrow>
             (let msgs = listed res
              in if msgs = [] then (Break, s1)
                 else
                   (case process_messages env msgs s1 of
                      (Raised, s2) \<Rightarrow> (Break, s2\<lparr>trace := trace s2 @ [ErrorLogged]\<rparr>)
                    | (Completed, s2) \<Rightarrow>
                        (case nextPageToken res of
                           None \<Rightarrow> (Break, s2)
                         | Some t \<Rightarrow> if t = [] then (Break, s2) else (Continue t, s2)))))"

text \<open>
  \<open>while True\<close> may run for ever: the loop takes fuel, one unit for a page, and returns
  whether it left the loop (\<open>True\<close>) or the fuel ran out (\<open>False\<close>), with the state
  reached.
\<close>

fun inbox_loop :: "nat \<Rightarrow> 'w env \<Rightarrow> string option \<Rightarrow> 'w state \<Rightarrow> bool \<times> 'w state" where
  "inbox_loop 0 env page_token s = (False, s)"
| "inbox_loop (Suc n) env page_token s =
     (case loop_body env page_token s of
        (Break, s') \<Rightarrow> (True, s')
      | (Continue t, s') \<Rightarrow> inbox_loop n env (Some t) s')"

datatype run_status = NoService | Finished | OutOfFuel

text \<open>
  \<open>process_inbox\<close>: no service, no run; else the identifiers of the store are loaded, the
  counters start at 0 and the loop runs from the first page.
\<close>

definition process_inbox :: "nat \<Rightarrow> 'w env \<Rightarrow> 'w state \<Rightarrow> run_status \<times> 'w state" where
  "process_inbox fuel env s =
     (if \<not> gmail_service env then (NoService, s)
      else
        (let s0 = s\<lparr>saved_inbox_ids := load_inbox_saved_ids (inbox_saved_file s),
                     processed_count := 0, archived_count := 0, inbox_count := 0\<rparr>
         in case inbox_loop fuel env None s0 of
              (True, s') \<Rightarrow> (Finished, s')
            | (False, s') \<Rightarrow> (OutOfFuel, s')))"

text \<open>The summary printed at the end of a run, lines 226 to 230.\<close>

record summary =
  total_processed :: nat
  emails_archived :: nat
  emails_kept :: nat
  total_ids :: nat

definition summary_of :: "'w state \<Rightarrow> summary" where
  "summary_of s =
     \<lparr>total_processed = processed_count s,
      emails_archived = archived_count s,
      emails_kept = inbox_count s,
      total_ids = card (load_inbox_saved_ids (inbox_saved_file s))\<rparr>"

section \<open>Runs, traces and invariants\<close>

text \<open>
  Runs of the pipeline one after the other, each with its fuel and its environment;
  between two runs the remote services may change (\<open>change\<close>). The store and the
  trace go from a run to the next.
\<close>

fun runs :: "(nat \<times> 'w env \<times> ('w \<Rightarrow> 'w)) list \<Rightarrow> 'w state \<Rightarrow> 'w state" where
  "runs [] s = s"
| "runs ((fuel, env, change) # rs) s =
     (let s' = snd (process_inbox fuel env s)
      in runs rs (s'\<lparr>remote := change (remote s')\<rparr>))"

text \<open>The events that fetch or classify the message \<open>i\<close>.\<close>

fun fetch_or_classify :: "string \<Rightarrow> event \<Rightarrow> bool" where
  "fetch_or_classify i (GetCall j) = (i = j)"
| "fetch_or_classify i (OracleCall j p) = (i = j)"
| "fetch_or_classify i e = False"

text \<open>The identifiers that the listings of a trace gave: each is skipped or fetched.\<close>

fun listed_id :: "event \<Rightarrow> string option" where
  "listed_id (Skipped i) = Some i"
| "listed_id (GetCall i) = Some i"
| "listed_id e = None"

definition seen :: "event list \<Rightarrow> string set" where
  "seen es = set (List.map_filter listed_id es)"

text \<open>
  The invariant of the store and of the set in memory: the file is well formed, no
  identifier is twice in it, and the set holds every identifier of the file.
\<close>

definition store_inv :: "'w state \<Rightarrow> bool" where
  "store_inv s \<longleftrightarrow>
     store_wf (inbox_saved_file s) \<and> distinct (stored_ids (inbox_saved_file s))
     \<and> set (stored_ids (inbox_saved_file s)) \<subseteq> saved_inbox_ids s"

text \<open>
  Services that answer in the same way from one call to the next, for the runs that
  follow each other on an unchanged mailbox. \<open>inbox_of\<close> reads the inbox in the state of
  the services: a listing returns identifiers of the inbox only, no call puts a message
  into the inbox, and a mutation that succeeds takes its message out. A fetch that
  succeeds returns the message \<open>content i\<close>, and Gemini answers the prompt \<open>p\<close> with
  \<open>answer p\<close> (\<open>None\<close>: the call fails) whenever it is asked.
\<close>

definition stable_services ::
  "'w env \<Rightarrow> ('w \<Rightarrow> string set) \<Rightarrow> (string \<Rightarrow> message) \<Rightarrow> (string \<Rightarrow> string option) \<Rightarrow> bool" where
  "stable_services env inbox_of content answer \<longleftrightarrow>
     (\<forall>tok w res w'. messages_list env tok w = (Some res, w') \<longrightarrow> set (listed res) \<subseteq> inbox_of w)
   \<and> (\<forall>tok w. inbox_of (snd (messages_list env tok w)) \<subseteq> inbox_of w)
   \<and> (\<forall>i w. inbox_of (snd (messages_get env i w)) \<subseteq> inbox_of w)
   \<and> (\<forall>p w. inbox_of (snd (generate_content env p w)) \<subseteq> inbox_of w)
   \<and> (\<forall>i w. inbox_of (snd (messages_modify env i w)) \<subseteq> inbox_of w)
   \<and> (\<forall>i w. fst (messages_modify env i w) \<longrightarrow> i \<notin> inbox_of (snd (messages_modify env i w)))
   \<and> (\<forall>i w m. fst (messages_get env i w) = Some m \<longrightarrow> m = content i)
   \<and> (\<forall>p w. fst (generate_content env p w) = answer p)"

text \<open>The decision that \<open>classify_email_with_gemini\<close> returns for the message \<open>i\<close> then.\<close>

definition decision_for ::
  "'w env \<Rightarrow> (string \<Rightarrow> message) \<Rightarrow> (string \<Rightarrow> string option) \<Rightarrow> string \<Rightarrow> string option" where
  "decision_for env content answer i =
     (if GEMINI_API_KEY env = None \<or> GEMINI_API_KEY env = Some [] then None
      else
        (case answer (build_prompt (email_data_of i (content i)) (classified_examples env)) of
           None \<Rightarrow> None
         | Some t \<Rightarrow> gemini_decision t))"

definition undecided_for ::
  "'w env \<Rightarrow> (string \<Rightarrow> message) \<Rightarrow> (string \<Rightarrow> string option) \<Rightarrow> string \<Rightarrow> bool" where
  "undecided_for env content answer i \<longleftrightarrow>
     decision_for env content answer i \<noteq> Some ''[ARCHIVE]''
     \<and> decision_for env content answer i \<noteq> Some ''[INBOX]''"

text \<open>
  The invariant of a first run with no exception: the set in memory is in the store, and
  every identifier listed so far is kept (in the set), out of the inbox, or has no
  decision.
\<close>

definition first_run_inv ::
  "'w env \<Rightarrow> ('w \<Rightarrow> string set) \<Rightarrow> (string \<Rightarrow> message) \<Rightarrow> (string \<Rightarrow> string option)
     \<Rightarrow> 'w state \<Rightarrow> bool" where
  "first_run_inv env inbox_of content answer s \<longleftrightarrow>
     store_wf (inbox_saved_file s)
     \<and> saved_inbox_ids s \<subseteq> load_inbox_saved_ids (inbox_saved_file s)
     \<and> (\<forall>i \<in> seen (trace s).
           i \<in> saved_inbox_ids s \<or> i \<notin> inbox_of (remote s) \<or> undecided_for env content answer i)"

text \<open>
  The invariant of the run after it: nothing archived or kept, the inbox within the
  inbox \<open>B\<close> that the first run left, and the store \<open>L\<close> that it left in the set in memory.
\<close>

definition second_run_inv :: "('w \<Rightarrow> string set) \<Rightarrow> string set \<Rightarrow> string set \<Rightarrow> 'w state \<Rightarrow> bool" where
  "second_run_inv inbox_of B L s \<longleftrightarrow>
     archived_count s = 0 \<and> inbox_count s = 0
     \<and> inbox_of (remote s) \<subseteq> B \<and> L \<subseteq> saved_inbox_ids s"

section \<open>Example mailboxes\<close>

text \<open>
  A small mailbox for the examples: the identifiers of the inbox, in the order of the
  listing; the cursor returned with the page; the identifiers whose next fetch fails (a
  transient error: the fetch after it succeeds); the identifiers whose archiving fails.
\<close>

record mailbox =
  inbox :: "string list"
  cursor :: "string option"
  failing :: "string list"
  locked :: "string list"

text \<open>
  Its services: the listing returns the inbox as one page; a message has no payload and
  no snippet; archiving takes the message out of the inbox; Gemini answers \<open>answer\<close>,
  or its call fails when \<open>answer\<close> is \<open>None\<close>.
\<close>

definition demo_env :: "string option \<Rightarrow> mailbox env" where
  "demo_env answer =
     \<lparr>gmail_service = True,
      classified_examples = [],
      GEMINI_API_KEY = Some ''key'',
      messages_list =
        (\<lambda>tok w. (Some \<lparr>messages = Some (inbox w), nextPageToken = cursor w\<rparr>, w)),
      messages_get =
        (\<lambda>i w. if i \<in> set (failing w) then (None, w\<lparr>failing := remove1 i (failing w)\<rparr>)
                else (Some \<lparr>payload = None, snippet = None\<rparr>, w)),
      messages_modify =
        (\<lambda>i w. if i \<in> set (locked w) then (False, w)
                else (True, w\<lparr>inbox := removeAll i (inbox w)\<rparr>)),
      generate_content = (\<lambda>p w. (answer, w))\<rparr>"

text \<open>The state before the first run: nothing traced yet.\<close>

definition start :: "'w \<Rightarrow> string option \<Rightarrow> 'w state" where
  "start w f =
     \<lparr>remote = w, inbox_saved_file = f, trace = [], saved_inbox_ids = {},
      processed_count = 0, archived_count = 0, inbox_count = 0\<rparr>"

text \<open>Mailboxes and a message for the examples.\<close>

definition one_message :: mailbox where
  "one_message = \<lparr>inbox = [''m1''], cursor = None, failing = [], locked = []\<rparr>"

definition two_messages :: mailbox where
  "two_messages = \<lparr>inbox = [''m1'', ''m2''], cursor = None, failing = [], locked = []\<rparr>"

definition bare_message :: message where
  "bare_message = \<lparr>payload = None, snippet = None\<rparr>"

definition first_fetch_fails :: mailbox where
  "first_fetch_fails = \<lparr>inbox = [''m1'', ''m2''], cursor = None, failing = [''m1''], locked = []\<rparr>"

definition first_is_locked :: mailbox where
  "first_is_locked = \<lparr>inbox = [''m1'', ''m2''], cursor = None, failing = [], locked = [''m1'']\<rparr>"

definition empty_page_with_cursor :: mailbox where
  "empty_page_with_cursor = \<lparr>inbox = [], cursor = Some ''next'', failing = [], locked = []\<rparr>"

definition failing_page_with_cursor :: mailbox where
  "failing_page_with_cursor = \<lparr>inbox = [''m1''], cursor = Some ''next'', failing = [''m1''], locked = []\<rparr>"

definition page_with_cursor :: mailbox where
  "page_with_cursor = \<lparr>inbox = [''m1''], cursor = Some ''next'', failing = [], locked = []\<rparr>"

definition bare_prompt :: string where
  "bare_prompt = build_prompt (email_data_of ''m1'' bare_message) []"

text \<open>A store that holds \<open>m1\<close> already, and an inbox with \<open>m1\<close> and \<open>m2\<close>.\<close>

definition kept_before :: "mailbox state" where
  "kept_before = start two_messages (Some (''m1'' @ [LF]))"

text \<open>The state that a first run leaves when Gemini keeps both messages.\<close>

definition after_first_run :: "mailbox state" where
  "after_first_run =
     snd (process_inbox (Suc 0) (demo_env (Some ''[INBOX]'')) (start two_messages None))"

text \<open>
  A store whose only line has no line end, and an inbox with the one message \<open>b\<close>.
\<close>

definition unended_store :: "mailbox state" where
  "unended_store = start two_messages (Some ''m1'')"

definition only_b :: mailbox where
  "only_b = \<lparr>inbox = [''b''], cursor = None, failing = [], locked = []\<rparr>"

section \<open>The Decision Store: lines and identifiers\<close>

lemma readlines_Nil_iff: "readlines s = [] \<longleftrightarrow> s = []"
  by (cases s) (auto split: list.splits)

lemma readlines_append:
  "f = [] \<or> last f = LF \<Longrightarrow> readlines (f @ g) = readlines f @ readlines g"
proof (induction f rule: readlines.induct)
  case 1
  then show ?case by simp
next
  case (2 c cs)
  show ?case
  proof (cases "c = LF")
    case True
    with 2 show ?thesis by (auto split: if_splits)
  next
    case nlf: False
    show ?thesis
    proof (cases "c = CR")
      case True
      with 2 nlf show ?thesis by (cases cs) (auto split: if_splits)
    next
      case False
      with nlf 2 have cs: "cs \<noteq> []" "last cs = LF" by (auto split: if_splits)
      with 2 nlf False have "readlines (cs @ g) = readlines cs @ readlines g" by simp
      moreover from cs have "readlines cs \<noteq> []" by (simp add: readlines_Nil_iff)
      ultimately show ?thesis using nlf False by (auto split: list.splits)
    qed
  qed
qed

lemma readlines_line:
  "LF \<notin> set i \<Longrightarrow> CR \<notin> set i \<Longrightarrow> readlines (i @ [LF]) = [i @ [LF]]"
  by (induction i) (auto split: list.splits)

lemma strip_fixed:
  assumes "py_strip i = i"
  shows "dropWhile py_isspace i = i" and "dropWhile py_isspace (rev i) = rev i"
proof -
  let ?d = "dropWhile py_isspace i"
  have e: "rev (dropWhile py_isspace (rev ?d)) = i"
    using assms by (simp add: py_strip_def)
  have "length i = length (dropWhile py_isspace (rev ?d))"
    using e by (metis length_rev)
  also have "\<dots> \<le> length (rev ?d)"
    by (rule length_dropWhile_le)
  finally have "length i \<le> length ?d" by simp
  moreover have "length ?d \<le> length i"
    by (rule length_dropWhile_le)
  ultimately have "length ?d = length i" by simp
  then show d: "?d = i"
    by (metis dropWhile_eq_drop length_drop diff_is_0_eq' drop_0 le_refl
        length_takeWhile_le diff_diff_cancel)
  from e d have "rev (dropWhile py_isspace (rev i)) = i" by simp
  then show "dropWhile py_isspace (rev i) = rev i"
    by (metis rev_rev_ident)
qed

lemma strip_line:
  assumes s: "py_strip i = i"
  shows "py_strip (i @ [LF]) = i"
proof (cases i)
  case Nil
  then show ?thesis by (simp add: py_strip_def py_isspace_def)
next
  case (Cons a as)
  from strip_fixed(1)[OF s] Cons have "\<not> py_isspace (hd i)"
    by (metis hd_dropWhile list.distinct(1))
  with Cons have "dropWhile py_isspace (i @ [LF]) = i @ [LF]" by simp
  moreover have "dropWhile py_isspace (LF # rev i) = rev i"
    using strip_fixed(2)[OF s] by (simp add: py_isspace_def)
  ultimately show ?thesis by (simp add: py_strip_def)
qed

text \<open>Appending to a well-formed store keeps its lines and adds those of the new text.\<close>

lemma stored_ids_save:
  assumes "store_wf f"
  shows "stored_ids (save_inbox_id i f) = stored_ids f @ map py_strip (readlines (i @ [LF]))"
proof (cases f)
  case None
  then show ?thesis by (simp add: stored_ids_def save_inbox_id_def)
next
  case (Some t)
  with assms have "t = [] \<or> last t = LF" by (simp add: store_wf_def)
  then have "readlines (t @ i @ [LF]) = readlines t @ readlines (i @ [LF])"
    by (rule readlines_append)
  with Some show ?thesis by (simp add: stored_ids_def save_inbox_id_def)
qed

lemma stored_ids_save_clean:
  assumes "store_wf f" and "clean_id i"
  shows "stored_ids (save_inbox_id i f) = stored_ids f @ [i]"
proof -
  from assms(2) have "readlines (i @ [LF]) = [i @ [LF]]" and "py_strip (i @ [LF]) = i"
    by (simp_all add: clean_id_def readlines_line strip_line)
  with stored_ids_save[OF assms(1)] show ?thesis by simp
qed

lemma load_is_stored: "load_inbox_saved_ids f = set (stored_ids f)"
  by (simp add: load_inbox_saved_ids_def stored_ids_def split: option.splits)

text \<open>A missing file is well formed, and so is every file that \<open>save_inbox_id\<close> leaves.\<close>

lemma store_wf_missing: "store_wf None"
  by (simp add: store_wf_def)

lemma store_wf_save: "store_wf (save_inbox_id i f)"
  by (simp add: store_wf_def save_inbox_id_def)

lemma load_save_mono:
  "store_wf f \<Longrightarrow> load_inbox_saved_ids f \<subseteq> load_inbox_saved_ids (save_inbox_id i f)"
  by (simp add: load_is_stored stored_ids_save)

section \<open>The reading of Gemini's answer\<close>

lemmas text_defs =
  py_upper_def py_lower_def py_strip_def upper_char_def lower_char_def py_isspace_def
  lower_letters_def upper_letters_def

text \<open>
  C3, as the claim states it, fails: the answers \<open>ARCHIVE\<close> and \<open> Archive \<close>, with no
  brackets, are not in the list of the code and give no decision.
\<close>

theorem gemini_decision_bare_archive_unknown:
  "gemini_decision ''ARCHIVE'' = None \<and> gemini_decision '' Archive '' = None"
  by (simp add: gemini_decision_def text_defs)

text \<open>
  C3, amended: the answer is stripped and put in upper case, and the decision is
  \<open>[ARCHIVE]\<close> or \<open>[INBOX]\<close> exactly when the result is that string, brackets included;
  any other answer gives no decision. So \<open>[archive]\<close>, \<open>[ARCHIVE]\<close> and
  \<open> [Archive] \<close> (also between a no-break space and a next-line character) are read as
  ARCHIVE and \<open>[inbox]\<close> as INBOX, and \<open>RETAIN\<close> gives no decision.
\<close>

theorem gemini_decision_taxonomy:
  "gemini_decision text =
     (if py_upper (py_strip text) = ''[ARCHIVE]'' then Some ''[ARCHIVE]''
      else if py_upper (py_strip text) = ''[INBOX]'' then Some ''[INBOX]''
      else None)
   \<and> gemini_decision ''[archive]'' = Some ''[ARCHIVE]''
   \<and> gemini_decision ''[ARCHIVE]'' = Some ''[ARCHIVE]''
   \<and> gemini_decision '' [Archive] '' = Some ''[ARCHIVE]''
   \<and> gemini_decision (CHR 0xA0 # ''[Archive]'' @ [CHR 0x85]) = Some ''[ARCHIVE]''
   \<and> gemini_decision ''[inbox]'' = Some ''[INBOX]''
   \<and> gemini_decision ''RETAIN'' = None"
  by (simp add: gemini_decision_def text_defs)

section \<open>Round trip of the Decision Store\<close>

text \<open>
  C10, as the claim states it, fails: when the last line of the file has no line end, the
  identifier is appended to that line, and loading gives neither the identifier nor what
  was loaded before.
\<close>

theorem unended_line_round_trip_fails:
  "clean_id ''d''
   \<and> load_inbox_saved_ids (Some ''abc'') = {''abc''}
   \<and> load_inbox_saved_ids (save_inbox_id ''d'' (Some ''abc'')) = {''abcd''}"
  by (simp add: load_inbox_saved_ids_def save_inbox_id_def clean_id_def text_defs)

text \<open>
  C10, amended: on a well-formed store (missing, empty or ending with a line end, as
  \<open>save_inbox_id\<close> leaves it), saving a clean identifier (no white space at its ends,
  no line end in it) appends the identifier and a line end \<open>\n\<close> to the text of the
  file, the file has one more line, which holds the identifier, and loading gives what
  was loaded before and that identifier.
\<close>

theorem save_then_load:
  assumes "store_wf f" and "clean_id i"
  shows "save_inbox_id i f = Some ((case f of None \<Rightarrow> [] | Some t \<Rightarrow> t) @ i @ [LF])
       \<and> stored_ids (save_inbox_id i f) = stored_ids f @ [i]
       \<and> load_inbox_saved_ids (save_inbox_id i f) = insert i (load_inbox_saved_ids f)"
  using assms by (simp add: load_is_stored stored_ids_save_clean) (simp add: save_inbox_id_def)

theorem save_then_load_witness:
  "store_wf (Some (''abc'' @ [LF])) \<and> clean_id ''def''
   \<and> save_inbox_id ''def'' (Some (''abc'' @ [LF])) = Some (''abc'' @ [LF] @ ''def'' @ [LF])
   \<and> stored_ids (save_inbox_id ''def'' (Some (''abc'' @ [LF]))) = [''abc'', ''def'']
   \<and> load_inbox_saved_ids (save_inbox_id ''def'' (Some (''abc'' @ [LF]))) = {''def'', ''abc''}"
proof -
  have wf: "store_wf (Some (''abc'' @ [LF]))"
    by (simp add: store_wf_def)
  have cl: "clean_id ''def''"
    by (simp add: clean_id_def text_defs)
  have l: "load_inbox_saved_ids (Some (''abc'' @ [LF])) = {''abc''}"
    by (simp add: load_inbox_saved_ids_def text_defs)
  have s: "stored_ids (Some (''abc'' @ [LF])) = [''abc'']"
    by (simp add: stored_ids_def text_defs)
  note t = save_then_load[OF wf cl]
  have A: "save_inbox_id ''def'' (Some (''abc'' @ [LF])) = Some (''abc'' @ [LF] @ ''def'' @ [LF])"
    using t[THEN conjunct1] by simp
  have B: "stored_ids (save_inbox_id ''def'' (Some (''abc'' @ [LF]))) = [''abc'', ''def'']"
    using t[THEN conjunct2, THEN conjunct1] s by simp
  have C: "load_inbox_saved_ids (save_inbox_id ''def'' (Some (''abc'' @ [LF]))) = {''def'', ''abc''}"
    using t[THEN conjunct2, THEN conjunct2] l by simp
  from wf cl A B C show ?thesis by (intro conjI)
qed

section \<open>One message\<close>

lemma classify_frame:
  assumes "classify_email_with_gemini env d ex s = (r, s')"
  shows "\<exists>w es. s' = s\<lparr>remote := w, trace := trace s @ es\<rparr>
           \<and> (es = [] \<or> es = [OracleCall (email_id d) (build_prompt d ex)])"
proof (cases "GEMINI_API_KEY env = None \<or> GEMINI_API_KEY env = Some []")
  case True
  with assms have "s' = s" by (simp add: classify_email_with_gemini_def)
  then have "s' = s\<lparr>remote := remote s, trace := trace s @ []\<rparr>" by simp
  then show ?thesis by blast
next
  case False
  obtain t w where g: "generate_content env (build_prompt d ex) (remote s) = (t, w)"
    by (cases "generate_content env (build_prompt d ex) (remote s)")
  with False assms
  have "s' = s\<lparr>remote := w, trace := trace s @ [OracleCall (email_id d) (build_prompt d ex)]\<rparr>"
    by (auto simp: classify_email_with_gemini_def Let_def split: option.splits)
  then show ?thesis by blast
qed

lemma email_id_of [simp]: "email_id (email_data_of i msg) = i"
  by (simp add: email_data_of_def Let_def)

lemma classify_trace:
  assumes "GEMINI_API_KEY env = Some k" and "k \<noteq> []"
  shows "trace (snd (classify_email_with_gemini env d ex s))
           = trace s @ [OracleCall (email_id d) (build_prompt d ex)]"
  using assms
  by (simp add: classify_email_with_gemini_def Let_def split: prod.splits option.splits)

lemma process_message_trace:
  assumes "i \<notin> saved_inbox_ids s" and "messages_get env i (remote s) = (Some msg, w)"
    and "GEMINI_API_KEY env = Some k" and "k \<noteq> []"
  shows "\<exists>rest. trace (snd (process_message env i s)) =
           trace s @ [GetCall i, OracleCall i (build_prompt (email_data_of i msg) (classified_examples env))] @ rest"
proof -
  let ?s1 = "s\<lparr>remote := w, trace := trace s @ [GetCall i]\<rparr>"
  obtain d s2 where c: "classify_email_with_gemini env (email_data_of i msg) (classified_examples env) ?s1 = (d, s2)"
    by (cases "classify_email_with_gemini env (email_data_of i msg) (classified_examples env) ?s1")
  from classify_trace[OF assms(3,4), of "email_data_of i msg" "classified_examples env" ?s1] c
  have t: "trace s2 = trace s @ [GetCall i, OracleCall i (build_prompt (email_data_of i msg) (classified_examples env))]"
    by simp
  show ?thesis
    using assms(1,2) c t
    by (auto simp: process_message_def Let_def split: prod.splits)
qed

lemma py_join_append:
  "xs \<noteq> [] \<Longrightarrow> ys \<noteq> [] \<Longrightarrow> py_join sep (xs @ ys) = py_join sep xs @ sep @ py_join sep ys"
proof (induction sep xs rule: py_join.induct)
  case (2 sep p)
  then show ?case by (cases ys) simp_all
qed simp_all

lemma build_prompt_ends:
  "\<exists>pre. build_prompt d ex =
     pre @ ''Subject: '' @ email_subject d @ [LF] @ ''Sender: '' @ email_sender d @ [LF]
         @ ''Snippet: '' @ email_snippet d @ [LF] @ ''Decision:''"
proof -
  let ?front = "prompt_head @ concat (map example_parts ex) @ prompt_topics"
  have ne: "?front \<noteq> []" by (simp add: prompt_topics_def)
  have "build_prompt d ex = py_join [LF] (?front @ email_parts d)"
    by (simp add: build_prompt_def)
  also have "\<dots> = py_join [LF] ?front @ [LF] @ py_join [LF] (email_parts d)"
    using ne by (intro py_join_append) (simp_all add: email_parts_def)
  also have "py_join [LF] (email_parts d) =
      ''Now, classify the following email:'' @ [LF] @ ''Subject: '' @ email_subject d @ [LF]
        @ ''Sender: '' @ email_sender d @ [LF] @ ''Snippet: '' @ email_snippet d @ [LF]
        @ ''Decision:''"
    by (simp add: email_parts_def)
  finally have "build_prompt d ex =
      (py_join [LF] ?front @ [LF] @ ''Now, classify the following email:'' @ [LF])
        @ ''Subject: '' @ email_subject d @ [LF] @ ''Sender: '' @ email_sender d @ [LF]
        @ ''Snippet: '' @ email_snippet d @ [LF] @ ''Decision:''"
    by simp
  then show ?thesis by blast
qed

lemmas demo_defs =
  process_inbox_def loop_body_def listed_def process_message_def classify_email_with_gemini_def
  demo_env_def start_def gemini_decision_def text_defs load_inbox_saved_ids_def
  save_inbox_id_def summary_of_def Let_def

text \<open>
  C5, as the claim states it, fails: the summary has no count of undecided messages. A
  message with no decision advances the count of processed messages, as an archived
  message does, and no other number.
\<close>

theorem unknown_summary_has_no_undecided:
  "summary_of (snd (process_inbox (Suc 0) (demo_env (Some ''maybe'')) (start one_message None)))
     = \<lparr>total_processed = 1, emails_archived = 0, emails_kept = 0, total_ids = 0\<rparr>
   \<and> summary_of (snd (process_inbox (Suc 0) (demo_env (Some ''[ARCHIVE]'')) (start one_message None)))
     = \<lparr>total_processed = 1, emails_archived = 1, emails_kept = 0, total_ids = 0\<rparr>"
  by (simp add: demo_defs one_message_def)

text \<open>
  C5, amended: when the classification gives no decision (an answer outside the list, a
  failed call, no key), the message is not archived (no call of the mutation: the trace
  gains the fetch and at most the call of Gemini), nothing is appended to the store or to
  the set in memory, and of the counters only \<open>processed_count\<close> advances, by one.
\<close>

theorem unknown_verdict_only_counts_processed:
  assumes "i \<notin> saved_inbox_ids s"
    and "messages_get env i (remote s) = (Some msg, w)"
    and "classify_email_with_gemini env (email_data_of i msg) (classified_examples env)
           (s\<lparr>remote := w, trace := trace s @ [GetCall i]\<rparr>) = (d, s2)"
    and "d \<noteq> Some ''[ARCHIVE]''" and "d \<noteq> Some ''[INBOX]''"
  shows "process_message env i s = (Completed, s2\<lparr>processed_count := processed_count s + 1\<rparr>)
    \<and> inbox_saved_file s2 = inbox_saved_file s
    \<and> saved_inbox_ids s2 = saved_inbox_ids s
    \<and> archived_count s2 = archived_count s
    \<and> inbox_count s2 = inbox_count s
    \<and> (trace s2 = trace s @ [GetCall i]
        \<or> trace s2 = trace s @ [GetCall i,
              OracleCall i (build_prompt (email_data_of i msg) (classified_examples env))])"
proof -
  from classify_frame[OF assms(3)] obtain w' es where
    s2: "s2 = s\<lparr>remote := w', trace := trace s @ GetCall i # es\<rparr>"
    and es: "es = [] \<or> es = [OracleCall i
               (build_prompt (email_data_of i msg) (classified_examples env))]"
    by auto
  have "process_message env i s = (Completed, s2\<lparr>processed_count := processed_count s + 1\<rparr>)"
    using assms s2 by (simp add: process_message_def Let_def)
  with s2 es show ?thesis by auto
qed

theorem unknown_verdict_only_counts_processed_witness:
  "process_message (demo_env (Some ''maybe'')) ''m1'' (start one_message None) =
     (Completed,
      (start one_message None)
        \<lparr>trace := [GetCall ''m1'', OracleCall ''m1'' (build_prompt (email_data_of ''m1'' bare_message) [])],
         processed_count := 1\<rparr>)"
proof -
  let ?s = "start one_message None"
  let ?s2 = "?s\<lparr>trace := [GetCall ''m1'', OracleCall ''m1'' (build_prompt (email_data_of ''m1'' bare_message) [])]\<rparr>"
  have 1: "''m1'' \<notin> saved_inbox_ids ?s" by (simp add: start_def)
  have 2: "messages_get (demo_env (Some ''maybe'')) ''m1'' (remote ?s) = (Some bare_message, one_message)"
    by (simp add: demo_env_def start_def one_message_def bare_message_def)
  have 3: "classify_email_with_gemini (demo_env (Some ''maybe'')) (email_data_of ''m1'' bare_message)
             (classified_examples (demo_env (Some ''maybe'')))
             (?s\<lparr>remote := one_message, trace := trace ?s @ [GetCall ''m1'']\<rparr>) = (None, ?s2)"
    by (simp add: classify_email_with_gemini_def demo_env_def start_def gemini_decision_def text_defs)
  from unknown_verdict_only_counts_processed[OF 1 2 3]
  show ?thesis by (simp add: start_def)
qed

text \<open>
  C6, as the claim states it, fails: a listed identifier that is in the store is skipped
  and counted nowhere; the count of kept emails stays 0.
\<close>

theorem skipped_id_not_in_kept_count:
  "summary_of (snd (process_inbox (Suc 0) (demo_env (Some ''[INBOX]''))
       (start one_message (Some (''m1'' @ [LF])))))
     = \<lparr>total_processed = 0, emails_archived = 0, emails_kept = 0, total_ids = 1\<rparr>
   \<and> trace (snd (process_inbox (Suc 0) (demo_env (Some ''[INBOX]''))
       (start one_message (Some (''m1'' @ [LF])))))
     = [ListCall None, Skipped ''m1'']"
  by (simp add: demo_defs one_message_def)

text \<open>
  C6, amended: an identifier of the set in memory is skipped: no fetch, no classification,
  no mutation, no append, and every counter stays as it is; only the skip is traced.
\<close>

theorem saved_id_is_skipped_uncounted:
  assumes "i \<in> saved_inbox_ids s"
  shows "process_message env i s = (Completed, s\<lparr>trace := trace s @ [Skipped i]\<rparr>)"
  using assms by (simp add: process_message_def)

theorem saved_id_is_skipped_uncounted_witness:
  "''m1'' \<in> saved_inbox_ids ((start one_message None)\<lparr>saved_inbox_ids := {''m1''}\<rparr>)
   \<and> process_message (demo_env (Some ''[INBOX]'')) ''m1''
        ((start one_message None)\<lparr>saved_inbox_ids := {''m1''}\<rparr>)
     = (Completed, (start one_message None)\<lparr>saved_inbox_ids := {''m1''}, trace := [Skipped ''m1'']\<rparr>)"
  using saved_id_is_skipped_uncounted
    [of "''m1''" "(start one_message None)\<lparr>saved_inbox_ids := {''m1''}\<rparr>" "demo_env (Some ''[INBOX]'')"]
  by (simp add: start_def)

text \<open>
  C8: a message that is not skipped and whose fetch succeeds is classified whatever its
  metadata lacks (with a key set, Gemini is called with the prompt built from the
  summary). The prompt ends with the subject, the sender and the snippet of the summary;
  the subject and the sender are \<open>N/A\<close> when no header has that name (so when the
  payload or its headers are missing), and the snippet is empty when the message has none.
\<close>

theorem missing_fields_get_placeholders:
  assumes "i \<notin> saved_inbox_ids s" and "messages_get env i (remote s) = (Some msg, w)"
    and "GEMINI_API_KEY env = Some k" and "k \<noteq> []"
  shows "(\<exists>rest. trace (snd (process_message env i s)) =
            trace s @ [GetCall i, OracleCall i (build_prompt (email_data_of i msg) (classified_examples env))] @ rest)
    \<and> (\<exists>pre. build_prompt (email_data_of i msg) (classified_examples env) =
            pre @ ''Subject: '' @ email_subject (email_data_of i msg) @ [LF]
                @ ''Sender: '' @ email_sender (email_data_of i msg) @ [LF]
                @ ''Snippet: '' @ email_snippet (email_data_of i msg) @ [LF] @ ''Decision:'')
    \<and> (find (\<lambda>h. py_lower (header_name h) = ''subject'') (message_headers msg) = None
          \<longrightarrow> email_subject (email_data_of i msg) = ''N/A'')
    \<and> (find (\<lambda>h. py_lower (header_name h) = ''from'') (message_headers msg) = None
          \<longrightarrow> email_sender (email_data_of i msg) = ''N/A'')
    \<and> (snippet msg = None \<longrightarrow> email_snippet (email_data_of i msg) = [])
    \<and> (payload msg = None \<or> (\<exists>p. payload msg = Some p \<and> headers p = None)
          \<longrightarrow> message_headers msg = [])"
proof -
  note process_message_trace[OF assms]
  moreover note build_prompt_ends[of "email_data_of i msg" "classified_examples env"]
  moreover have "find (\<lambda>h. py_lower (header_name h) = ''subject'') (message_headers msg) = None
          \<longrightarrow> email_subject (email_data_of i msg) = ''N/A''"
    by (simp add: email_data_of_def header_or_NA_def Let_def)
  moreover have "find (\<lambda>h. py_lower (header_name h) = ''from'') (message_headers msg) = None
          \<longrightarrow> email_sender (email_data_of i msg) = ''N/A''"
    by (simp add: email_data_of_def header_or_NA_def Let_def)
  moreover have "snippet msg = None \<longrightarrow> email_snippet (email_data_of i msg) = []"
    by (simp add: email_data_of_def Let_def)
  moreover have "payload msg = None \<or> (\<exists>p. payload msg = Some p \<and> headers p = None)
          \<longrightarrow> message_headers msg = []"
    by (auto simp: message_headers_def)
  ultimately show ?thesis by blast
qed

theorem missing_fields_get_placeholders_witness:
  "email_data_of ''m1'' bare_message =
      \<lparr>email_id = ''m1'', email_subject = ''N/A'', email_sender = ''N/A'', email_snippet = []\<rparr>
   \<and> (\<exists>rest. trace (snd (process_message (demo_env (Some ''[INBOX]'')) ''m1'' (start one_message None))) =
         [GetCall ''m1'', OracleCall ''m1'' (build_prompt (email_data_of ''m1'' bare_message) [])] @ rest)
   \<and> (\<exists>pre. build_prompt (email_data_of ''m1'' bare_message) [] =
         pre @ ''Subject: N/A'' @ [LF] @ ''Sender: N/A'' @ [LF] @ ''Snippet: '' @ [LF] @ ''Decision:'')"
proof -
  let ?env = "demo_env (Some ''[INBOX]'')"
  let ?s = "start one_message None"
  have 1: "''m1'' \<notin> saved_inbox_ids ?s" by (simp add: start_def)
  have 2: "messages_get ?env ''m1'' (remote ?s) = (Some bare_message, one_message)"
    by (simp add: demo_env_def start_def one_message_def bare_message_def)
  have 3: "GEMINI_API_KEY ?env = Some ''key''" by (simp add: demo_env_def)
  have 4: "''key'' \<noteq> []" by simp
  have d: "email_data_of ''m1'' bare_message =
      \<lparr>email_id = ''m1'', email_subject = ''N/A'', email_sender = ''N/A'', email_snippet = []\<rparr>"
    by (simp add: email_data_of_def message_headers_def header_or_NA_def bare_message_def)
  have e: "classified_examples ?env = []" "trace ?s = []" by (simp_all add: demo_env_def start_def)
  from missing_fields_get_placeholders[OF 1 2 3 4] d e show ?thesis
    by simp
qed

section \<open>Errors on a message\<close>

lemma process_messages_append:
  "process_messages env (pre @ post) s =
     (case process_messages env pre s of
        (Raised, s') \<Rightarrow> (Raised, s')
      | (Completed, s') \<Rightarrow> process_messages env post s')"
  by (induction pre arbitrary: s) (auto split: prod.splits outcome.splits)

lemma bare_prompt_any: "build_prompt (email_data_of i bare_message) [] = bare_prompt"
  by (simp add: bare_prompt_def build_prompt_def email_parts_def email_data_of_def Let_def)

text \<open>
  C2, as the claim states it, fails: the fetch of the first message of a page of two fails,
  the handler logs the error and the run ends; the second message is never fetched.
\<close>

theorem failed_fetch_ends_run:
  "process_inbox (Suc 0) (demo_env (Some ''[ARCHIVE]'')) (start first_fetch_fails None) =
     (Finished,
      (start first_fetch_fails None)
        \<lparr>remote := first_fetch_fails\<lparr>failing := []\<rparr>,
         trace := [ListCall None, GetCall ''m1'', ErrorLogged]\<rparr>)"
  by (simp add: demo_defs first_fetch_fails_def)

text \<open>
  C2, amended. On a page whose messages before \<open>i\<close> were handled with no exception,
  and \<open>i\<close> is not skipped: when the fetch of \<open>i\<close> raises, or the decision is to
  archive and the mutation raises, the handler logs the error and the loop ends there,
  with what was done before kept and the rest of the page not handled; when the call of
  Gemini raises, the exception is caught in the classification, the message counts as
  processed with no decision, and the loop goes on with the rest of the page.
\<close>

theorem message_errors:
  assumes "messages_list env tok (remote s) = (Some res, w)"
    and "listed res = pre @ i # rest"
    and "process_messages env pre (s\<lparr>remote := w, trace := trace s @ [ListCall tok]\<rparr>) = (Completed, s1)"
    and "i \<notin> saved_inbox_ids s1"
  shows
   "(messages_get env i (remote s1) = (None, w1) \<longrightarrow>
       inbox_loop (Suc n) env tok s =
         (True, s1\<lparr>remote := w1, trace := trace s1 @ [GetCall i, ErrorLogged]\<rparr>))
  \<and> (messages_get env i (remote s1) = (Some msg, w1)
       \<and> classify_email_with_gemini env (email_data_of i msg) (classified_examples env)
            (s1\<lparr>remote := w1, trace := trace s1 @ [GetCall i]\<rparr>) = (Some ''[ARCHIVE]'', s2)
       \<and> messages_modify env i (remote s2) = (False, w2) \<longrightarrow>
       inbox_loop (Suc n) env tok s =
         (True, s2\<lparr>remote := w2, trace := trace s2 @ [ModifyCall i, ErrorLogged],
                   processed_count := processed_count s2 + 1\<rparr>))
  \<and> (messages_get env i (remote s1) = (Some msg, w1)
       \<and> GEMINI_API_KEY env = Some k \<and> k \<noteq> []
       \<and> generate_content env (build_prompt (email_data_of i msg) (classified_examples env)) w1
            = (None, w2) \<longrightarrow>
       process_messages env (pre @ i # rest) (s\<lparr>remote := w, trace := trace s @ [ListCall tok]\<rparr>) =
         process_messages env rest
           (s1\<lparr>remote := w2,
               trace := trace s1 @ [GetCall i,
                 OracleCall i (build_prompt (email_data_of i msg) (classified_examples env))],
               processed_count := processed_count s1 + 1\<rparr>))"
proof (intro conjI impI)
  let ?s0 = "s\<lparr>remote := w, trace := trace s @ [ListCall tok]\<rparr>"
  have page: "process_messages env (pre @ i # rest) ?s0 =
      (case process_message env i s1 of
         (Raised, s') \<Rightarrow> (Raised, s')
       | (Completed, s') \<Rightarrow> process_messages env rest s')"
    using assms(3) by (simp add: process_messages_append)
  have body: "process_message env i s1 = (Raised, s') \<Longrightarrow>
      inbox_loop (Suc n) env tok s = (True, s'\<lparr>trace := trace s' @ [ErrorLogged]\<rparr>)" for s'
    using assms(1,2) page by (simp add: loop_body_def)
  {
    assume "messages_get env i (remote s1) = (None, w1)"
    with assms(4) have "process_message env i s1 =
        (Raised, s1\<lparr>remote := w1, trace := trace s1 @ [GetCall i]\<rparr>)"
      by (simp add: process_message_def)
    from body[OF this]
    show "inbox_loop (Suc n) env tok s =
         (True, s1\<lparr>remote := w1, trace := trace s1 @ [GetCall i, ErrorLogged]\<rparr>)"
      by simp
  }
  {
    assume "messages_get env i (remote s1) = (Some msg, w1)
       \<and> classify_email_with_gemini env (email_data_of i msg) (classified_examples env)
            (s1\<lparr>remote := w1, trace := trace s1 @ [GetCall i]\<rparr>) = (Some ''[ARCHIVE]'', s2)
       \<and> messages_modify env i (remote s2) = (False, w2)"
    with assms(4) have "process_message env i s1 =
        (Raised, s2\<lparr>processed_count := processed_count s2 + 1, remote := w2,
                    trace := trace s2 @ [ModifyCall i]\<rparr>)"
      by (simp add: process_message_def)
    from body[OF this]
    show "inbox_loop (Suc n) env tok s =
         (True, s2\<lparr>remote := w2, trace := trace s2 @ [ModifyCall i, ErrorLogged],
                   processed_count := processed_count s2 + 1\<rparr>)"
      by simp
  }
  {
    assume a: "messages_get env i (remote s1) = (Some msg, w1)
       \<and> GEMINI_API_KEY env = Some k \<and> k \<noteq> []
       \<and> generate_content env (build_prompt (email_data_of i msg) (classified_examples env)) w1
            = (None, w2)"
    with assms(4) have "process_message env i s1 =
        (Completed, s1\<lparr>remote := w2,
               trace := trace s1 @ [GetCall i,
                 OracleCall i (build_prompt (email_data_of i msg) (classified_examples env))],
               processed_count := processed_count s1 + 1\<rparr>)"
      by (simp add: process_message_def classify_email_with_gemini_def)
    with page
    show "process_messages env (pre @ i # rest) ?s0 =
         process_messages env rest
           (s1\<lparr>remote := w2,
               trace := trace s1 @ [GetCall i,
                 OracleCall i (build_prompt (email_data_of i msg) (classified_examples env))],
               processed_count := processed_count s1 + 1\<rparr>)"
      by simp
  }
qed

theorem message_errors_witness:
  "inbox_loop (Suc 0) (demo_env (Some ''[ARCHIVE]'')) None (start first_fetch_fails None) =
     (True, (start first_fetch_fails None)
        \<lparr>remote := first_fetch_fails\<lparr>failing := []\<rparr>,
         trace := [ListCall None, GetCall ''m1'', ErrorLogged]\<rparr>)
   \<and> inbox_loop (Suc 0) (demo_env (Some ''[ARCHIVE]'')) None (start first_is_locked None) =
     (True, (start first_is_locked None)
        \<lparr>trace := [ListCall None, GetCall ''m1'', OracleCall ''m1'' bare_prompt,
                   ModifyCall ''m1'', ErrorLogged],
         processed_count := 1\<rparr>)
   \<and> process_messages (demo_env None) [''m1'', ''m2'']
        ((start two_messages None)\<lparr>trace := [ListCall None]\<rparr>) =
     (Completed, (start two_messages None)
        \<lparr>trace := [ListCall None, GetCall ''m1'', OracleCall ''m1'' bare_prompt,
                   GetCall ''m2'', OracleCall ''m2'' bare_prompt],
         processed_count := 2\<rparr>)"
proof (intro conjI)
  let ?res = "\<lambda>w. \<lparr>messages = Some (inbox w), nextPageToken = cursor w\<rparr>"
  let ?A = "demo_env (Some ''[ARCHIVE]'')"
  have p: "listed (?res first_fetch_fails) = [] @ ''m1'' # [''m2'']"
    "listed (?res first_is_locked) = [] @ ''m1'' # [''m2'']"
    "listed (?res two_messages) = [] @ ''m1'' # [''m2'']"
    by (simp_all add: listed_def first_fetch_fails_def first_is_locked_def two_messages_def)
  {
    let ?s = "start first_fetch_fails None"
    let ?s1 = "?s\<lparr>remote := first_fetch_fails, trace := trace ?s @ [ListCall None]\<rparr>"
    have 1: "messages_list ?A None (remote ?s) = (Some (?res first_fetch_fails), first_fetch_fails)"
      by (simp add: demo_env_def start_def)
    have 3: "process_messages ?A [] ?s1 = (Completed, ?s1)" by simp
    have 4: "''m1'' \<notin> saved_inbox_ids ?s1" by (simp add: start_def)
    have g: "messages_get ?A ''m1'' (remote ?s1) = (None, first_fetch_fails\<lparr>failing := []\<rparr>)"
      by (simp add: demo_env_def first_fetch_fails_def)
    from message_errors[OF 1 p(1) 3 4, where n = 0] g
    show "inbox_loop (Suc 0) ?A None ?s =
       (True, ?s\<lparr>remote := first_fetch_fails\<lparr>failing := []\<rparr>,
                 trace := [ListCall None, GetCall ''m1'', ErrorLogged]\<rparr>)"
      by (simp add: start_def)
  }
  {
    let ?s = "start first_is_locked None"
    let ?s1 = "?s\<lparr>remote := first_is_locked, trace := trace ?s @ [ListCall None]\<rparr>"
    let ?s2 = "?s\<lparr>trace := [ListCall None, GetCall ''m1'', OracleCall ''m1'' bare_prompt]\<rparr>"
    have 1: "messages_list ?A None (remote ?s) = (Some (?res first_is_locked), first_is_locked)"
      by (simp add: demo_env_def start_def)
    have 3: "process_messages ?A [] ?s1 = (Completed, ?s1)" by simp
    have 4: "''m1'' \<notin> saved_inbox_ids ?s1" by (simp add: start_def)
    have g: "messages_get ?A ''m1'' (remote ?s1) = (Some bare_message, first_is_locked)"
      by (simp add: demo_env_def first_is_locked_def bare_message_def)
    have c: "classify_email_with_gemini ?A (email_data_of ''m1'' bare_message) (classified_examples ?A)
            (?s1\<lparr>remote := first_is_locked, trace := trace ?s1 @ [GetCall ''m1'']\<rparr>)
          = (Some ''[ARCHIVE]'', ?s2)"
      by (simp add: classify_email_with_gemini_def demo_env_def gemini_decision_def text_defs
          start_def bare_prompt_def)
    have m: "messages_modify ?A ''m1'' (remote ?s2) = (False, first_is_locked)"
      by (simp add: demo_env_def start_def first_is_locked_def)
    from message_errors[OF 1 p(2) 3 4, where n = 0 and msg = bare_message
      and ?w1.0 = first_is_locked and ?s2.0 = ?s2 and ?w2.0 = first_is_locked] g c m
    show "inbox_loop (Suc 0) ?A None ?s =
       (True, ?s\<lparr>trace := [ListCall None, GetCall ''m1'', OracleCall ''m1'' bare_prompt,
                   ModifyCall ''m1'', ErrorLogged],
                 processed_count := 1\<rparr>)"
      by (simp add: start_def)
  }
  {
    let ?N = "demo_env None"
    let ?s = "start two_messages None"
    let ?s1 = "?s\<lparr>remote := two_messages, trace := trace ?s @ [ListCall None]\<rparr>"
    have 1: "messages_list ?N None (remote ?s) = (Some (?res two_messages), two_messages)"
      by (simp add: demo_env_def start_def)
    have 3: "process_messages ?N [] ?s1 = (Completed, ?s1)" by simp
    have 4: "''m1'' \<notin> saved_inbox_ids ?s1" by (simp add: start_def)
    have g: "messages_get ?N ''m1'' (remote ?s1) = (Some bare_message, two_messages)"
      by (simp add: demo_env_def two_messages_def bare_message_def)
    have k: "GEMINI_API_KEY ?N = Some ''key''" "''key'' \<noteq> []" by (simp_all add: demo_env_def)
    have o: "generate_content ?N (build_prompt (email_data_of ''m1'' bare_message) (classified_examples ?N))
               two_messages = (None, two_messages)"
      by (simp add: demo_env_def)
    have r: "process_messages ?N [''m2'']
           (?s1\<lparr>remote := two_messages,
               trace := trace ?s1 @ [GetCall ''m1'', OracleCall ''m1'' bare_prompt],
               processed_count := processed_count ?s1 + 1\<rparr>)
         = (Completed, ?s\<lparr>trace := [ListCall None, GetCall ''m1'', OracleCall ''m1'' bare_prompt,
                   GetCall ''m2'', OracleCall ''m2'' bare_prompt],
                 processed_count := 2\<rparr>)"
      by (simp add: process_message_def classify_email_with_gemini_def demo_env_def start_def
          two_messages_def bare_message_def[symmetric] bare_prompt_any)
    from message_errors[OF 1 p(3) 3 4, where msg = bare_message and ?w1.0 = two_messages
      and k = "''key''" and ?w2.0 = two_messages] g k o r
    show "process_messages ?N [''m1'', ''m2''] (?s\<lparr>trace := [ListCall None]\<rparr>) =
       (Completed, ?s\<lparr>trace := [ListCall None, GetCall ''m1'', OracleCall ''m1'' bare_prompt,
                   GetCall ''m2'', OracleCall ''m2'' bare_prompt],
                 processed_count := 2\<rparr>)"
      by (simp add: start_def demo_env_def bare_prompt_def)
  }
qed

section \<open>Pagination\<close>

text \<open>
  C9, as the claim states it, fails: an empty page ends the loop although the listing
  returned a cursor, and so does an exception on a page that has a cursor; the next page
  is not requested.
\<close>

theorem loop_ends_despite_cursor:
  "process_inbox (Suc (Suc 0)) (demo_env (Some ''[INBOX]'')) (start empty_page_with_cursor None) =
     (Finished, (start empty_page_with_cursor None)\<lparr>trace := [ListCall None]\<rparr>)
   \<and> process_inbox (Suc (Suc 0)) (demo_env (Some ''[INBOX]'')) (start failing_page_with_cursor None) =
     (Finished, (start failing_page_with_cursor None)
        \<lparr>remote := failing_page_with_cursor\<lparr>failing := []\<rparr>,
         trace := [ListCall None, GetCall ''m1'', ErrorLogged]\<rparr>)"
  by (simp add: demo_defs empty_page_with_cursor_def failing_page_with_cursor_def)

text \<open>
  C9, amended: after a page the loop goes on, with the cursor of the listing as the next
  page token, exactly when the listing succeeded, the page is not empty, no message of
  the page raised an exception, and the listing returned a cursor that is not the empty
  string; in every other case the loop ends after this page (one more unit of fuel
  suffices).
\<close>

theorem loop_continues_iff:
  "(fst (loop_body env tok s) = Continue t \<longleftrightarrow>
      (\<exists>res w. messages_list env tok (remote s) = (Some res, w) \<and> listed res \<noteq> []
         \<and> fst (process_messages env (listed res)
                  (s\<lparr>remote := w, trace := trace s @ [ListCall tok]\<rparr>)) = Completed
         \<and> nextPageToken res = Some t \<and> t \<noteq> []))
   \<and> (fst (loop_body env tok s) = Continue t \<longrightarrow>
        inbox_loop (Suc n) env tok s = inbox_loop n env (Some t) (snd (loop_body env tok s)))
   \<and> (fst (loop_body env tok s) = Break \<longrightarrow>
        inbox_loop (Suc n) env tok s = (True, snd (loop_body env tok s)))"
proof (intro conjI)
  show "fst (loop_body env tok s) = Continue t \<longleftrightarrow>
      (\<exists>res w. messages_list env tok (remote s) = (Some res, w) \<and> listed res \<noteq> []
         \<and> fst (process_messages env (listed res)
                  (s\<lparr>remote := w, trace := trace s @ [ListCall tok]\<rparr>)) = Completed
         \<and> nextPageToken res = Some t \<and> t \<noteq> [])"
    by (auto simp: loop_body_def Let_def split: prod.splits option.splits outcome.splits if_splits)
  show "fst (loop_body env tok s) = Continue t \<longrightarrow>
        inbox_loop (Suc n) env tok s = inbox_loop n env (Some t) (snd (loop_body env tok s))"
    by (cases "loop_body env tok s") auto
  show "fst (loop_body env tok s) = Break \<longrightarrow>
        inbox_loop (Suc n) env tok s = (True, snd (loop_body env tok s))"
    by (cases "loop_body env tok s") auto
qed

theorem loop_continues_iff_witness:
  "fst (loop_body (demo_env (Some ''[INBOX]'')) None (start page_with_cursor None)) = Continue ''next''
   \<and> inbox_loop (Suc (Suc 0)) (demo_env (Some ''[INBOX]'')) None (start page_with_cursor None) =
       (False, (start page_with_cursor None)
          \<lparr>inbox_saved_file := Some (''m1'' @ [LF]),
           trace := [ListCall None, GetCall ''m1'', OracleCall ''m1'' bare_prompt, SaveCall ''m1'',
                     ListCall (Some ''next''), Skipped ''m1''],
           saved_inbox_ids := {''m1''}, processed_count := 1, inbox_count := 1\<rparr>)
   \<and> fst (loop_body (demo_env (Some ''[INBOX]'')) None (start one_message None)) = Break
   \<and> fst (inbox_loop (Suc 0) (demo_env (Some ''[INBOX]'')) None (start one_message None))"
proof -
  let ?E = "demo_env (Some ''[INBOX]'')"
  let ?s = "start page_with_cursor None"
  have c: "fst (loop_body ?E None ?s) = Continue ''next''"
    by (simp add: demo_defs page_with_cursor_def)
  have b: "fst (loop_body ?E None (start one_message None)) = Break"
    by (simp add: demo_defs one_message_def)
  have r: "inbox_loop (Suc 0) ?E (Some ''next'') (snd (loop_body ?E None ?s)) =
       (False, ?s
          \<lparr>inbox_saved_file := Some (''m1'' @ [LF]),
           trace := [ListCall None, GetCall ''m1'', OracleCall ''m1'' bare_prompt, SaveCall ''m1'',
                     ListCall (Some ''next''), Skipped ''m1''],
           saved_inbox_ids := {''m1''}, processed_count := 1, inbox_count := 1\<rparr>)"
    by (simp add: demo_defs page_with_cursor_def bare_prompt_def bare_message_def)
  from loop_continues_iff[of ?E None ?s "''next''" "Suc 0"] c r
  have 1: "inbox_loop (Suc (Suc 0)) ?E None ?s = 
       (False, ?s
          \<lparr>inbox_saved_file := Some (''m1'' @ [LF]),
           trace := [ListCall None, GetCall ''m1'', OracleCall ''m1'' bare_prompt, SaveCall ''m1'',
                     ListCall (Some ''next''), Skipped ''m1''],
           saved_inbox_ids := {''m1''}, processed_count := 1, inbox_count := 1\<rparr>)"
    by simp
  from loop_continues_iff[of ?E None "start one_message None" _ 0] b
  have 2: "fst (inbox_loop (Suc 0) ?E None (start one_message None))"
    by simp
  from c 1 b 2 show ?thesis by blast
qed

section \<open>The cases of one message\<close>

lemma classify_result:
  "\<exists>w es. classify_email_with_gemini env d ex s =
            (fst (classify_email_with_gemini env d ex s), s\<lparr>remote := w, trace := trace s @ es\<rparr>)
        \<and> (\<forall>e \<in> set es. \<exists>p. e = OracleCall (email_id d) p)
        \<and> (w = remote s \<or> (\<exists>p. w = snd (generate_content env p (remote s))))"
proof (cases "GEMINI_API_KEY env = None \<or> GEMINI_API_KEY env = Some []")
  case True
  then have "classify_email_with_gemini env d ex s = (None, s\<lparr>remote := remote s, trace := trace s @ []\<rparr>)"
    by (simp add: classify_email_with_gemini_def)
  then show ?thesis by (intro exI[of _ "remote s"] exI[of _ "[]"]) simp
next
  case False
  let ?p = "build_prompt d ex"
  obtain t w where g: "generate_content env ?p (remote s) = (t, w)"
    by (cases "generate_content env ?p (remote s)")
  with False
  have "snd (classify_email_with_gemini env d ex s) =
          s\<lparr>remote := w, trace := trace s @ [OracleCall (email_id d) ?p]\<rparr>"
    by (auto simp: classify_email_with_gemini_def Let_def split: option.splits)
  moreover from g have "w = snd (generate_content env ?p (remote s))" by simp
  ultimately show ?thesis
    by (intro exI[of _ w] exI[of _ "[OracleCall (email_id d) ?p]"]) (auto simp: prod_eq_iff)
qed

text \<open>What handling one message does, case by case.\<close>

lemma process_message_cases:
  obtains
    (skipped) "j \<in> saved_inbox_ids s"
      "process_message env j s = (Completed, s\<lparr>trace := trace s @ [Skipped j]\<rparr>)"
  | (fetch_failed) w where "j \<notin> saved_inbox_ids s"
      "messages_get env j (remote s) = (None, w)"
      "process_message env j s = (Raised, s\<lparr>remote := w, trace := trace s @ [GetCall j]\<rparr>)"
  | (archived) msg w0 w1 w es where "j \<notin> saved_inbox_ids s"
      "messages_get env j (remote s) = (Some msg, w0)"
      "fst (classify_email_with_gemini env (email_data_of j msg) (classified_examples env)
             (s\<lparr>remote := w0, trace := trace s @ [GetCall j]\<rparr>)) = Some ''[ARCHIVE]''"
      "\<forall>e \<in> set es. \<exists>p. e = OracleCall j p"
      "w1 = w0 \<or> (\<exists>p. w1 = snd (generate_content env p w0))"
      "messages_modify env j w1 = (True, w)"
      "process_message env j s =
         (Completed, s\<lparr>remote := w, trace := trace s @ GetCall j # es @ [ModifyCall j],
                       processed_count := processed_count s + 1,
                       archived_count := archived_count s + 1\<rparr>)"
  | (archive_failed) msg w0 w1 w es where "j \<notin> saved_inbox_ids s"
      "messages_get env j (remote s) = (Some msg, w0)"
      "\<forall>e \<in> set es. \<exists>p. e = OracleCall j p"
      "w1 = w0 \<or> (\<exists>p. w1 = snd (generate_content env p w0))"
      "messages_modify env j w1 = (False, w)"
      "process_message env j s =
         (Raised, s\<lparr>remote := w, trace := trace s @ GetCall j # es @ [ModifyCall j],
                    processed_count := processed_count s + 1\<rparr>)"
  | (kept) msg w0 w es where "j \<notin> saved_inbox_ids s"
      "messages_get env j (remote s) = (Some msg, w0)"
      "fst (classify_email_with_gemini env (email_data_of j msg) (classified_examples env)
             (s\<lparr>remote := w0, trace := trace s @ [GetCall j]\<rparr>)) = Some ''[INBOX]''"
      "\<forall>e \<in> set es. \<exists>p. e = OracleCall j p"
      "w = w0 \<or> (\<exists>p. w = snd (generate_content env p w0))"
      "process_message env j s =
         (Completed, s\<lparr>remote := w, trace := trace s @ GetCall j # es @ [SaveCall j],
                       inbox_saved_file := save_inbox_id j (inbox_saved_file s),
                       saved_inbox_ids := insert j (saved_inbox_ids s),
                       processed_count := processed_count s + 1,
                       inbox_count := inbox_count s + 1\<rparr>)"
  | (undecided) msg w0 w es d where "j \<notin> saved_inbox_ids s"
      "messages_get env j (remote s) = (Some msg, w0)"
      "fst (classify_email_with_gemini env (email_data_of j msg) (classified_examples env)
             (s\<lparr>remote := w0, trace := trace s @ [GetCall j]\<rparr>)) = d"
      "d \<noteq> Some ''[ARCHIVE]''" "d \<noteq> Some ''[INBOX]''"
      "\<forall>e \<in> set es. \<exists>p. e = OracleCall j p"
      "w = w0 \<or> (\<exists>p. w = snd (generate_content env p w0))"
      "process_message env j s =
         (Completed, s\<lparr>remote := w, trace := trace s @ GetCall j # es,
                       processed_count := processed_count s + 1\<rparr>)"
proof (cases "j \<in> saved_inbox_ids s")
  case True
  then show ?thesis using skipped by (simp add: process_message_def)
next
  case new: False
  obtain m w0 where g: "messages_get env j (remote s) = (m, w0)"
    by (cases "messages_get env j (remote s)")
  show ?thesis
  proof (cases m)
    case None
    with new g show ?thesis using fetch_failed by (simp add: process_message_def)
  next
    case (Some msg)
    with g have g': "messages_get env j (remote s) = (Some msg, w0)" by simp
    let ?s1 = "s\<lparr>remote := w0, trace := trace s @ [GetCall j]\<rparr>"
    let ?c = "classify_email_with_gemini env (email_data_of j msg) (classified_examples env) ?s1"
    from classify_result[of env "email_data_of j msg" "classified_examples env" ?s1]
    obtain w1 es where c: "?c = (fst ?c, ?s1\<lparr>remote := w1, trace := trace ?s1 @ es\<rparr>)"
      and es: "\<forall>e \<in> set es. \<exists>p. e = OracleCall j p"
      and w1: "w1 = w0 \<or> (\<exists>p. w1 = snd (generate_content env p w0))"
      by auto
    obtain ok w2 where m: "messages_modify env j w1 = (ok, w2)"
      by (cases "messages_modify env j w1")
    consider (a) "fst ?c = Some ''[ARCHIVE]''" "ok" | (b) "fst ?c = Some ''[ARCHIVE]''" "\<not> ok"
      | (c) "fst ?c = Some ''[INBOX]''" | (d) "fst ?c \<noteq> Some ''[ARCHIVE]''" "fst ?c \<noteq> Some ''[INBOX]''"
      by blast
    then show ?thesis
    proof cases
      case a
      have "process_message env j s =
         (Completed, s\<lparr>remote := w2, trace := trace s @ GetCall j # es @ [ModifyCall j],
                       processed_count := processed_count s + 1,
                       archived_count := archived_count s + 1\<rparr>)"
        using new g' a m by (simp add: process_message_def Let_def, subst c, simp)
      moreover from m a(2) have "messages_modify env j w1 = (True, w2)" by simp
      ultimately show ?thesis using archived[OF new g' a(1) es w1] by blast
    next
      case b
      have "process_message env j s =
         (Raised, s\<lparr>remote := w2, trace := trace s @ GetCall j # es @ [ModifyCall j],
                    processed_count := processed_count s + 1\<rparr>)"
        using new g' b m by (simp add: process_message_def Let_def, subst c, simp)
      moreover from m b(2) have "messages_modify env j w1 = (False, w2)" by simp
      ultimately show ?thesis using archive_failed[OF new g' es w1] by blast
    next
      case c
      have "process_message env j s =
         (Completed, s\<lparr>remote := w1, trace := trace s @ GetCall j # es @ [SaveCall j],
                       inbox_saved_file := save_inbox_id j (inbox_saved_file s),
                       saved_inbox_ids := insert j (saved_inbox_ids s),
                       processed_count := processed_count s + 1,
                       inbox_count := inbox_count s + 1\<rparr>)"
        using new g' c by (simp add: process_message_def Let_def, subst \<open>?c = _\<close>, simp)
      then show ?thesis using kept[OF new g' c es w1] by blast
    next
      case d
      have "process_message env j s =
         (Completed, s\<lparr>remote := w1, trace := trace s @ GetCall j # es,
                       processed_count := processed_count s + 1\<rparr>)"
        using new g' d by (simp add: process_message_def Let_def, subst \<open>?c = _\<close>, simp)
      then show ?thesis using undecided[OF new g' refl d es w1] by blast
    qed
  qed
qed

section \<open>Identifiers of the store are never classified again\<close>

lemma oracle_events_of_other:
  "\<forall>e \<in> set es. \<exists>p. e = OracleCall j p \<Longrightarrow> i \<noteq> j \<Longrightarrow> filter (fetch_or_classify i) es = []"
  by (induction es) auto

lemma process_message_keeps_saved:
  assumes "i \<in> saved_inbox_ids s"
  shows "i \<in> saved_inbox_ids (snd (process_message env j s))
       \<and> filter (fetch_or_classify i) (trace (snd (process_message env j s)))
           = filter (fetch_or_classify i) (trace s)"
  using assms
  by (cases rule: process_message_cases[of j s env]) (auto simp: oracle_events_of_other)

lemma process_messages_keeps_saved:
  assumes "i \<in> saved_inbox_ids s"
  shows "i \<in> saved_inbox_ids (snd (process_messages env js s))
       \<and> filter (fetch_or_classify i) (trace (snd (process_messages env js s)))
           = filter (fetch_or_classify i) (trace s)"
  using assms
proof (induction js arbitrary: s)
  case Nil
  then show ?case by simp
next
  case (Cons j js)
  obtain out s' where p: "process_message env j s = (out, s')"
    by (cases "process_message env j s")
  with process_message_keeps_saved[OF Cons.prems, of env j]
  have k: "i \<in> saved_inbox_ids s'"
    "filter (fetch_or_classify i) (trace s') = filter (fetch_or_classify i) (trace s)"
    by simp_all
  show ?case
  proof (cases out)
    case Completed
    with p k Cons.IH[OF k(1)] show ?thesis by simp
  next
    case Raised
    with p k show ?thesis by simp
  qed
qed

lemma loop_body_keeps_saved:
  assumes "i \<in> saved_inbox_ids s"
  shows "i \<in> saved_inbox_ids (snd (loop_body env tok s))
       \<and> filter (fetch_or_classify i) (trace (snd (loop_body env tok s)))
           = filter (fetch_or_classify i) (trace s)"
proof -
  obtain r w where l: "messages_list env tok (remote s) = (r, w)"
    by (cases "messages_list env tok (remote s)")
  let ?s1 = "s\<lparr>remote := w, trace := trace s @ [ListCall tok]\<rparr>"
  from assms have s1: "i \<in> saved_inbox_ids ?s1" by simp
  show ?thesis
  proof (cases r)
    case None
    with l assms show ?thesis by (simp add: loop_body_def)
  next
    case (Some res)
    from process_messages_keeps_saved[OF s1, of env "listed res"]
    show ?thesis using l Some assms
      by (auto simp: loop_body_def Let_def split: prod.splits outcome.splits option.splits)
  qed
qed

lemma inbox_loop_keeps_saved:
  assumes "i \<in> saved_inbox_ids s"
  shows "i \<in> saved_inbox_ids (snd (inbox_loop n env tok s))
       \<and> filter (fetch_or_classify i) (trace (snd (inbox_loop n env tok s)))
           = filter (fetch_or_classify i) (trace s)"
  using assms
proof (induction n arbitrary: tok s)
  case 0
  then show ?case by simp
next
  case (Suc n)
  obtain c s' where b: "loop_body env tok s = (c, s')"
    by (cases "loop_body env tok s")
  with loop_body_keeps_saved[OF Suc.prems, of env tok]
  have k: "i \<in> saved_inbox_ids s'"
    "filter (fetch_or_classify i) (trace s') = filter (fetch_or_classify i) (trace s)"
    by simp_all
  show ?case
  proof (cases c)
    case Break
    with b k show ?thesis by simp
  next
    case (Continue t)
    with b k Suc.IH[OF k(1), of "Some t"] show ?thesis by simp
  qed
qed

section \<open>The store only grows\<close>

lemma process_message_store:
  "inbox_saved_file (snd (process_message env j s)) = inbox_saved_file s
   \<or> inbox_saved_file (snd (process_message env j s)) = save_inbox_id j (inbox_saved_file s)"
  by (cases rule: process_message_cases[of j s env]) auto

lemma process_message_store_grows:
  assumes "store_wf (inbox_saved_file s)"
  shows "store_wf (inbox_saved_file (snd (process_message env j s)))
       \<and> load_inbox_saved_ids (inbox_saved_file s)
           \<subseteq> load_inbox_saved_ids (inbox_saved_file (snd (process_message env j s)))"
  using process_message_store[of env j s] assms load_save_mono[OF assms, of j]
  by (auto simp: store_wf_save)

lemma process_messages_store_grows:
  assumes "store_wf (inbox_saved_file s)"
  shows "store_wf (inbox_saved_file (snd (process_messages env js s)))
       \<and> load_inbox_saved_ids (inbox_saved_file s)
           \<subseteq> load_inbox_saved_ids (inbox_saved_file (snd (process_messages env js s)))"
  using assms
proof (induction js arbitrary: s)
  case Nil
  then show ?case by simp
next
  case (Cons j js)
  obtain out s' where p: "process_message env j s = (out, s')"
    by (cases "process_message env j s")
  with process_message_store_grows[OF Cons.prems, of env j]
  have k: "store_wf (inbox_saved_file s')"
    "load_inbox_saved_ids (inbox_saved_file s) \<subseteq> load_inbox_saved_ids (inbox_saved_file s')"
    by simp_all
  show ?case
  proof (cases out)
    case Completed
    with p k Cons.IH[OF k(1)] show ?thesis by auto
  next
    case Raised
    with p k show ?thesis by simp
  qed
qed

lemma loop_body_store_grows:
  assumes "store_wf (inbox_saved_file s)"
  shows "store_wf (inbox_saved_file (snd (loop_body env tok s)))
       \<and> load_inbox_saved_ids (inbox_saved_file s)
           \<subseteq> load_inbox_saved_ids (inbox_saved_file (snd (loop_body env tok s)))"
proof -
  obtain r w where l: "messages_list env tok (remote s) = (r, w)"
    by (cases "messages_list env tok (remote s)")
  let ?s1 = "s\<lparr>remote := w, trace := trace s @ [ListCall tok]\<rparr>"
  from assms have s1: "store_wf (inbox_saved_file ?s1)" by simp
  show ?thesis
  proof (cases r)
    case None
    with l assms show ?thesis by (simp add: loop_body_def)
  next
    case (Some res)
    from process_messages_store_grows[OF s1, of env "listed res"]
    show ?thesis using l Some assms
      by (auto simp: loop_body_def Let_def split: prod.splits outcome.splits option.splits)
  qed
qed

lemma inbox_loop_store_grows:
  assumes "store_wf (inbox_saved_file s)"
  shows "store_wf (inbox_saved_file (snd (inbox_loop n env tok s)))
       \<and> load_inbox_saved_ids (inbox_saved_file s)
           \<subseteq> load_inbox_saved_ids (inbox_saved_file (snd (inbox_loop n env tok s)))"
  using assms
proof (induction n arbitrary: tok s)
  case 0
  then show ?case by simp
next
  case (Suc n)
  obtain c s' where b: "loop_body env tok s = (c, s')"
    by (cases "loop_body env tok s")
  with loop_body_store_grows[OF Suc.prems, of env tok]
  have k: "store_wf (inbox_saved_file s')"
    "load_inbox_saved_ids (inbox_saved_file s) \<subseteq> load_inbox_saved_ids (inbox_saved_file s')"
    by simp_all
  show ?case
  proof (cases c)
    case Break
    with b k show ?thesis by simp
  next
    case (Continue t)
    with b k Suc.IH[OF k(1), of "Some t"] show ?thesis by auto
  qed
qed

lemma process_inbox_state:
  "snd (process_inbox fuel env s) =
     (if gmail_service env
      then snd (inbox_loop fuel env None
                 (s\<lparr>saved_inbox_ids := load_inbox_saved_ids (inbox_saved_file s),
                    processed_count := 0, archived_count := 0, inbox_count := 0\<rparr>))
      else s)"
  by (simp add: process_inbox_def Let_def split: prod.splits bool.splits)

lemma process_inbox_store_grows:
  assumes "store_wf (inbox_saved_file s)"
  shows "store_wf (inbox_saved_file (snd (process_inbox fuel env s)))
       \<and> load_inbox_saved_ids (inbox_saved_file s)
           \<subseteq> load_inbox_saved_ids (inbox_saved_file (snd (process_inbox fuel env s)))"
proof (cases "gmail_service env")
  case False
  with assms show ?thesis by (simp add: process_inbox_def)
next
  case True
  let ?s0 = "s\<lparr>saved_inbox_ids := load_inbox_saved_ids (inbox_saved_file s),
               processed_count := 0, archived_count := 0, inbox_count := 0\<rparr>"
  from assms have "store_wf (inbox_saved_file ?s0)" by simp
  from inbox_loop_store_grows[OF this, of fuel env None] True
  show ?thesis by (simp add: process_inbox_state)
qed

lemma process_inbox_keeps_saved:
  assumes "i \<in> load_inbox_saved_ids (inbox_saved_file s)"
  shows "filter (fetch_or_classify i) (trace (snd (process_inbox fuel env s)))
           = filter (fetch_or_classify i) (trace s)"
proof (cases "gmail_service env")
  case False
  then show ?thesis by (simp add: process_inbox_def)
next
  case True
  let ?s0 = "s\<lparr>saved_inbox_ids := load_inbox_saved_ids (inbox_saved_file s),
               processed_count := 0, archived_count := 0, inbox_count := 0\<rparr>"
  from assms have "i \<in> saved_inbox_ids ?s0" by simp
  from inbox_loop_keeps_saved[OF this, of fuel env None] True
  show ?thesis by (simp add: process_inbox_state)
qed

lemma runs_keep_saved:
  assumes "store_wf (inbox_saved_file s)" and "i \<in> load_inbox_saved_ids (inbox_saved_file s)"
  shows "filter (fetch_or_classify i) (trace (runs rs s)) = filter (fetch_or_classify i) (trace s)"
  using assms
proof (induction rs arbitrary: s)
  case Nil
  then show ?case by simp
next
  case (Cons r rs)
  obtain fuel env change where r: "r = (fuel, env, change)" by (cases r)
  let ?s' = "snd (process_inbox fuel env s)"
  let ?s'' = "?s'\<lparr>remote := change (remote ?s')\<rparr>"
  from process_inbox_store_grows[OF Cons.prems(1), of fuel env] Cons.prems(2)
  have "store_wf (inbox_saved_file ?s'')" "i \<in> load_inbox_saved_ids (inbox_saved_file ?s'')"
    by auto
  from Cons.IH[OF this] process_inbox_keeps_saved[OF Cons.prems(2), of fuel env] r
  show ?case by (simp add: Let_def)
qed

text \<open>
  C1, as the claim states it, fails for the later runs: the store holds \<open>m1\<close> on a line
  with no line end; the first run skips \<open>m1\<close> and keeps \<open>m2\<close>, which is appended to
  that line; the second run loads \<open>m1m2\<close> and fetches and classifies \<open>m1\<close> again.
\<close>

theorem unended_store_forgets_saved_id:
  "''m1'' \<in> load_inbox_saved_ids (inbox_saved_file unended_store)
   \<and> inbox_saved_file (runs [(Suc 0, demo_env (Some ''[INBOX]''), id)] unended_store)
       = Some (''m1m2'' @ [LF])
   \<and> filter (fetch_or_classify ''m1'')
        (trace (runs [(Suc 0, demo_env (Some ''[INBOX]''), id),
                      (Suc 0, demo_env (Some ''[INBOX]''), id)] unended_store))
       = [GetCall ''m1'', OracleCall ''m1'' bare_prompt]"
  by (simp add: demo_defs unended_store_def two_messages_def bare_message_def[symmetric]
      bare_prompt_any)

text \<open>
  C1, amended: an identifier that is in the store when a run starts is neither fetched nor
  classified in that run, whatever the fuel (so also in a run that does not end), and,
  when the store is well formed (missing, empty or ending with a line end), in no sequence
  of later runs, whatever the environments of these runs and the changes of the mailbox
  between them: the trace gains no fetch and no call of Gemini for it.
\<close>

theorem saved_id_never_classified_again:
  assumes "i \<in> load_inbox_saved_ids (inbox_saved_file s)"
  shows "filter (fetch_or_classify i) (trace (snd (process_inbox fuel env s)))
           = filter (fetch_or_classify i) (trace s)
       \<and> (store_wf (inbox_saved_file s) \<longrightarrow>
            filter (fetch_or_classify i) (trace (runs rs s))
              = filter (fetch_or_classify i) (trace s))"
  using process_inbox_keeps_saved[OF assms] runs_keep_saved[OF _ assms] by blast

theorem saved_id_never_classified_again_witness:
  "''m1'' \<in> load_inbox_saved_ids (inbox_saved_file kept_before)
   \<and> store_wf (inbox_saved_file kept_before)
   \<and> filter (fetch_or_classify ''m1'')
        (trace (snd (process_inbox (Suc 0) (demo_env (Some ''[INBOX]'')) kept_before))) = []
   \<and> filter (fetch_or_classify ''m1'')
        (trace (runs [(Suc 0, demo_env (Some ''[INBOX]''), id),
                      (Suc 0, demo_env (Some ''[ARCHIVE]''), id)] kept_before)) = []
   \<and> trace (snd (process_inbox (Suc 0) (demo_env (Some ''[INBOX]'')) kept_before)) =
       [ListCall None, Skipped ''m1'', GetCall ''m2'', OracleCall ''m2'' bare_prompt, SaveCall ''m2'']"
proof -
  have 1: "''m1'' \<in> load_inbox_saved_ids (inbox_saved_file kept_before)"
    by (simp add: kept_before_def start_def load_inbox_saved_ids_def text_defs)
  have 2: "store_wf (inbox_saved_file kept_before)"
    by (simp add: kept_before_def start_def store_wf_def)
  have 3: "trace kept_before = []" by (simp add: kept_before_def start_def)
  have 4: "trace (snd (process_inbox (Suc 0) (demo_env (Some ''[INBOX]'')) kept_before)) =
       [ListCall None, Skipped ''m1'', GetCall ''m2'', OracleCall ''m2'' bare_prompt, SaveCall ''m2'']"
    by (simp add: demo_defs kept_before_def two_messages_def bare_message_def[symmetric] bare_prompt_any)
  from saved_id_never_classified_again[OF 1, of "Suc 0" "demo_env (Some ''[INBOX]'')"
      "[(Suc 0, demo_env (Some ''[INBOX]''), id), (Suc 0, demo_env (Some ''[ARCHIVE]''), id)]"]
    1 2 3 4
  show ?thesis by simp
qed

section \<open>The trace only grows\<close>

lemma seen_simps [simp]:
  "seen [] = {}"
  "seen (es @ fs) = seen es \<union> seen fs"
  "seen (Skipped i # es) = insert i (seen es)"
  "seen (GetCall i # es) = insert i (seen es)"
  "seen (ListCall t # es) = seen es"
  "seen (OracleCall i p # es) = seen es"
  "seen (ModifyCall i # es) = seen es"
  "seen (SaveCall i # es) = seen es"
  "seen (ErrorLogged # es) = seen es"
  by (simp_all add: seen_def List.map_filter_def)

lemma seen_oracle_events:
  "\<forall>e \<in> set es. \<exists>p. e = OracleCall j p \<Longrightarrow> seen es = {}"
  by (induction es) auto

lemma seen_mono: "set es \<subseteq> set fs \<Longrightarrow> seen es \<subseteq> seen fs"
  by (auto simp: seen_def List.map_filter_def)

lemma process_message_trace_grows:
  "set (trace s) \<subseteq> set (trace (snd (process_message env j s)))
   \<and> j \<in> seen (trace (snd (process_message env j s)))"
  by (cases rule: process_message_cases[of j s env]) auto

lemma process_messages_trace_grows:
  "set (trace s) \<subseteq> set (trace (snd (process_messages env js s)))"
proof (induction js arbitrary: s)
  case Nil
  then show ?case by simp
next
  case (Cons j js)
  obtain out s' where p: "process_message env j s = (out, s')"
    by (cases "process_message env j s")
  with process_message_trace_grows[of s env j] have "set (trace s) \<subseteq> set (trace s')" by simp
  with p Cons[of s'] show ?case by (cases out) auto
qed

lemma loop_body_trace_grows:
  "set (trace s) \<subseteq> set (trace (snd (loop_body env tok s)))"
proof -
  obtain r w where l: "messages_list env tok (remote s) = (r, w)"
    by (cases "messages_list env tok (remote s)")
  let ?s1 = "s\<lparr>remote := w, trace := trace s @ [ListCall tok]\<rparr>"
  show ?thesis
  proof (cases r)
    case None
    with l show ?thesis by (auto simp: loop_body_def)
  next
    case (Some res)
    from process_messages_trace_grows[of ?s1 env "listed res"]
    show ?thesis using l Some
      by (auto simp: loop_body_def Let_def split: prod.splits outcome.splits option.splits)
  qed
qed

lemma inbox_loop_trace_grows:
  "set (trace s) \<subseteq> set (trace (snd (inbox_loop n env tok s)))"
proof (induction n arbitrary: tok s)
  case 0
  then show ?case by simp
next
  case (Suc n)
  obtain c s' where b: "loop_body env tok s = (c, s')"
    by (cases "loop_body env tok s")
  with loop_body_trace_grows[of s env tok] have "set (trace s) \<subseteq> set (trace s')" by simp
  with b Suc[of s'] show ?case by (cases c) auto
qed

lemma process_inbox_trace_grows:
  "set (trace s) \<subseteq> set (trace (snd (process_inbox fuel env s)))"
  using inbox_loop_trace_grows[of
      "s\<lparr>saved_inbox_ids := load_inbox_saved_ids (inbox_saved_file s),
         processed_count := 0, archived_count := 0, inbox_count := 0\<rparr>" fuel env None]
  by (simp add: process_inbox_state)

lemma runs_trace_grows: "set (trace s) \<subseteq> set (trace (runs rs s))"
proof (induction rs arbitrary: s)
  case Nil
  then show ?case by simp
next
  case (Cons r rs)
  obtain fuel env change where r: "r = (fuel, env, change)" by (cases r)
  let ?s' = "snd (process_inbox fuel env s)"
  from process_inbox_trace_grows[of s fuel env] Cons[of "?s'\<lparr>remote := change (remote ?s')\<rparr>"] r
  show ?case by (auto simp: Let_def)
qed

section \<open>No identifier twice in the store\<close>

lemma process_message_store_inv:
  assumes "store_inv s" and "clean_id j"
  shows "store_inv (snd (process_message env j s))"
  using assms
  by (cases rule: process_message_cases[of j s env])
     (auto simp: store_inv_def stored_ids_save_clean store_wf_save)

text \<open>An append happens only for an identifier that is not in the store.\<close>

lemma append_only_new:
  assumes "store_inv s"
    and "inbox_saved_file (snd (process_message env j s)) \<noteq> inbox_saved_file s"
  shows "j \<notin> set (stored_ids (inbox_saved_file s))"
  using assms
  by (cases rule: process_message_cases[of j s env]) (auto simp: store_inv_def)

lemma process_messages_store_inv:
  assumes "store_inv s" and "\<forall>i \<in> seen (trace (snd (process_messages env js s))). clean_id i"
  shows "store_inv (snd (process_messages env js s))"
  using assms
proof (induction js arbitrary: s)
  case Nil
  then show ?case by simp
next
  case (Cons j js)
  obtain out s' where p: "process_message env j s = (out, s')"
    by (cases "process_message env j s")
  from process_message_trace_grows[of s env j] p have j: "j \<in> seen (trace s')" by simp
  show ?case
  proof (cases out)
    case Completed
    from process_messages_trace_grows[of s' env js] have "seen (trace s') \<subseteq> seen (trace (snd (process_messages env js s')))"
      by (rule seen_mono)
    with j Cons.prems(2) p Completed have "clean_id j" by auto
    with process_message_store_inv[OF Cons.prems(1), of j env] p have "store_inv s'" by simp
    from Cons.IH[OF this] Cons.prems(2) p Completed show ?thesis by simp
  next
    case Raised
    with j Cons.prems(2) p have "clean_id j" by auto
    with process_message_store_inv[OF Cons.prems(1), of j env] p Raised show ?thesis by simp
  qed
qed

lemma loop_body_store_inv:
  assumes "store_inv s" and "\<forall>i \<in> seen (trace (snd (loop_body env tok s))). clean_id i"
  shows "store_inv (snd (loop_body env tok s))"
proof -
  obtain r w where l: "messages_list env tok (remote s) = (r, w)"
    by (cases "messages_list env tok (remote s)")
  let ?s1 = "s\<lparr>remote := w, trace := trace s @ [ListCall tok]\<rparr>"
  from assms(1) have s1: "store_inv ?s1" by (simp add: store_inv_def)
  show ?thesis
  proof (cases r)
    case None
    with l s1 show ?thesis by (simp add: loop_body_def store_inv_def)
  next
    case (Some res)
    obtain out s2 where p: "process_messages env (listed res) ?s1 = (out, s2)"
      by (cases "process_messages env (listed res) ?s1")
    show ?thesis
    proof (cases "listed res = []")
      case True
      with l Some s1 show ?thesis by (simp add: loop_body_def store_inv_def)
    next
      case False
      with l Some p have "seen (trace (snd (loop_body env tok s))) = seen (trace s2)"
        by (auto simp: loop_body_def Let_def split: outcome.splits option.splits)
      with assms(2) p have "\<forall>i \<in> seen (trace (snd (process_messages env (listed res) ?s1))). clean_id i"
        by simp
      from process_messages_store_inv[OF s1 this] p have "store_inv s2" by simp
      with l Some p False show ?thesis
        by (auto simp: loop_body_def Let_def store_inv_def split: outcome.splits option.splits)
    qed
  qed
qed

lemma inbox_loop_store_inv:
  assumes "store_inv s" and "\<forall>i \<in> seen (trace (snd (inbox_loop n env tok s))). clean_id i"
  shows "store_inv (snd (inbox_loop n env tok s))"
  using assms
proof (induction n arbitrary: tok s)
  case 0
  then show ?case by simp
next
  case (Suc n)
  obtain c s' where b: "loop_body env tok s = (c, s')"
    by (cases "loop_body env tok s")
  show ?case
  proof (cases c)
    case Break
    with b Suc.prems loop_body_store_inv[of s env tok] show ?thesis by simp
  next
    case (Continue t)
    from inbox_loop_trace_grows[of s' n env "Some t"]
    have "seen (trace s') \<subseteq> seen (trace (snd (inbox_loop n env (Some t) s')))"
      by (rule seen_mono)
    with Suc.prems(2) b Continue have "\<forall>i \<in> seen (trace (snd (loop_body env tok s))). clean_id i"
      by auto
    from loop_body_store_inv[OF Suc.prems(1) this] b have "store_inv s'" by simp
    from Suc.IH[OF this, of "Some t"] Suc.prems(2) b Continue show ?thesis by simp
  qed
qed

lemma process_inbox_distinct:
  assumes "store_wf (inbox_saved_file s)" and "distinct (stored_ids (inbox_saved_file s))"
    and "\<forall>i \<in> seen (trace (snd (process_inbox fuel env s))). clean_id i"
  shows "store_wf (inbox_saved_file (snd (process_inbox fuel env s)))
       \<and> distinct (stored_ids (inbox_saved_file (snd (process_inbox fuel env s))))"
proof (cases "gmail_service env")
  case False
  with assms show ?thesis by (simp add: process_inbox_state)
next
  case True
  let ?s0 = "s\<lparr>saved_inbox_ids := load_inbox_saved_ids (inbox_saved_file s),
               processed_count := 0, archived_count := 0, inbox_count := 0\<rparr>"
  from assms(1,2) have "store_inv ?s0" by (simp add: store_inv_def load_is_stored)
  moreover from assms(3) True
  have "\<forall>i \<in> seen (trace (snd (inbox_loop fuel env None ?s0))). clean_id i"
    by (simp add: process_inbox_state)
  ultimately have "store_inv (snd (inbox_loop fuel env None ?s0))"
    by (rule inbox_loop_store_inv)
  with True show ?thesis by (simp add: process_inbox_state store_inv_def)
qed

text \<open>
  C7, as the claim states it, fails: the store holds \<open>ab\<close> and, on a last line with no
  line end, \<open>a\<close>; a run that keeps the message \<open>b\<close> appends it to that line, and the
  store holds \<open>ab\<close> twice.
\<close>

theorem unended_line_gives_duplicate:
  "stored_ids (Some (''ab'' @ [LF] @ ''a'')) = [''ab'', ''a'']
   \<and> clean_id ''b''
   \<and> stored_ids (inbox_saved_file (snd (process_inbox (Suc 0) (demo_env (Some ''[INBOX]''))
         (start only_b (Some (''ab'' @ [LF] @ ''a''))))))
       = [''ab'', ''ab'']"
  by (simp add: demo_defs only_b_def stored_ids_def clean_id_def)

text \<open>
  C7, amended: from a well-formed store (missing, empty or ending with a line end) with no
  identifier twice, after any sequence of runs (whatever their fuel, so at the end of
  every page) no identifier is twice in the store, when the identifiers that the mailbox
  listed are clean (no white space at their ends, no line end in them, as the identifiers
  of Gmail are). An identifier is appended only when it is not in the set in memory, which
  holds every identifier of the file.
\<close>

theorem store_stays_duplicate_free:
  assumes "store_wf (inbox_saved_file s)" and "distinct (stored_ids (inbox_saved_file s))"
    and "\<forall>i \<in> seen (trace (runs rs s)). clean_id i"
  shows "distinct (stored_ids (inbox_saved_file (runs rs s)))"
  using assms
proof (induction rs arbitrary: s)
  case Nil
  then show ?case by simp
next
  case (Cons r rs)
  obtain fuel env change where r: "r = (fuel, env, change)" by (cases r)
  let ?s' = "snd (process_inbox fuel env s)"
  let ?s'' = "?s'\<lparr>remote := change (remote ?s')\<rparr>"
  from r have f: "runs (r # rs) s = runs rs ?s''" by (simp add: Let_def)
  from runs_trace_grows[of ?s'' rs] have "seen (trace ?s') \<subseteq> seen (trace (runs rs ?s''))"
    by (intro seen_mono) simp
  with Cons.prems(3) f have c: "\<forall>i \<in> seen (trace ?s'). clean_id i" by auto
  from process_inbox_distinct[OF Cons.prems(1,2) c]
  have "store_wf (inbox_saved_file ?s'')" "distinct (stored_ids (inbox_saved_file ?s''))"
    by simp_all
  from Cons.IH[OF this] Cons.prems(3) f show ?case by simp
qed

lemmas demo_run_defs = demo_defs kept_before_def two_messages_def

theorem store_stays_duplicate_free_witness:
  "store_wf (inbox_saved_file kept_before)
   \<and> stored_ids (inbox_saved_file kept_before) = [''m1'']
   \<and> seen (trace (runs [(Suc 0, demo_env (Some ''[INBOX]''), id),
                        (Suc 0, demo_env (Some ''[INBOX]''), id)] kept_before)) = {''m1'', ''m2''}
   \<and> clean_id ''m1'' \<and> clean_id ''m2''
   \<and> stored_ids (inbox_saved_file (runs [(Suc 0, demo_env (Some ''[INBOX]''), id),
                                       (Suc 0, demo_env (Some ''[INBOX]''), id)] kept_before))
     = [''m1'', ''m2'']
   \<and> distinct (stored_ids (inbox_saved_file (runs [(Suc 0, demo_env (Some ''[INBOX]''), id),
                                       (Suc 0, demo_env (Some ''[INBOX]''), id)] kept_before)))"
proof -
  let ?rs = "[(Suc 0, demo_env (Some ''[INBOX]''), id), (Suc 0, demo_env (Some ''[INBOX]''), id)]"
  have 1: "store_wf (inbox_saved_file kept_before)"
    by (simp add: kept_before_def start_def store_wf_def)
  have 2: "stored_ids (inbox_saved_file kept_before) = [''m1'']"
    by (simp add: kept_before_def start_def stored_ids_def text_defs)
  have 3: "seen (trace (runs ?rs kept_before)) = {''m1'', ''m2''}"
    by (auto simp: demo_run_defs)
  have c: "clean_id ''m1''" "clean_id ''m2''"
    by (simp_all add: clean_id_def text_defs)
  have 4: "stored_ids (inbox_saved_file (runs ?rs kept_before)) = [''m1'', ''m2'']"
    by (simp add: demo_run_defs stored_ids_def)
  from 2 have d: "distinct (stored_ids (inbox_saved_file kept_before))" by simp
  from 3 c have "\<forall>i \<in> seen (trace (runs ?rs kept_before)). clean_id i" by simp
  from store_stays_duplicate_free[OF 1 d this] 1 2 3 4 c show ?thesis by simp
qed

text \<open>
  The identifiers have to be clean: an identifier with a space before it is stored beside
  the identifier that it is once stripped.
\<close>

lemma dirty_id_is_stored_twice:
  "stored_ids (save_inbox_id '' a'' (Some (''a'' @ [LF]))) = [''a'', ''a'']"
  by (simp add: stored_ids_def save_inbox_id_def text_defs)

section \<open>Two runs on an unchanged mailbox\<close>

lemma stable_listed:
  "stable_services env inbox_of content answer \<Longrightarrow> messages_list env tok w = (Some res, w')
     \<Longrightarrow> set (listed res) \<subseteq> inbox_of w"
  unfolding stable_services_def by meson

lemma stable_list_shrinks:
  "stable_services env inbox_of content answer \<Longrightarrow> messages_list env tok w = (r, w')
     \<Longrightarrow> inbox_of w' \<subseteq> inbox_of w"
  unfolding stable_services_def by (metis snd_conv)

lemma stable_get_shrinks:
  "stable_services env inbox_of content answer \<Longrightarrow> messages_get env i w = (r, w')
     \<Longrightarrow> inbox_of w' \<subseteq> inbox_of w"
  unfolding stable_services_def by (metis snd_conv)

lemma stable_oracle_shrinks:
  "stable_services env inbox_of content answer
     \<Longrightarrow> w' = w \<or> (\<exists>p. w' = snd (generate_content env p w))
     \<Longrightarrow> inbox_of w' \<subseteq> inbox_of w"
  unfolding stable_services_def by (metis order_refl)

lemma stable_modify_shrinks:
  "stable_services env inbox_of content answer \<Longrightarrow> messages_modify env i w = (r, w')
     \<Longrightarrow> inbox_of w' \<subseteq> inbox_of w"
  unfolding stable_services_def by (metis snd_conv)

lemma stable_modify_removes:
  "stable_services env inbox_of content answer \<Longrightarrow> messages_modify env i w = (True, w')
     \<Longrightarrow> i \<notin> inbox_of w'"
  unfolding stable_services_def by (metis fst_conv snd_conv)

lemma stable_content:
  "stable_services env inbox_of content answer \<Longrightarrow> messages_get env i w = (Some m, w')
     \<Longrightarrow> m = content i"
  unfolding stable_services_def by (metis fst_conv)

lemma stable_decision:
  assumes "stable_services env inbox_of content answer"
  shows "fst (classify_email_with_gemini env (email_data_of i (content i)) (classified_examples env) s)
           = decision_for env content answer i"
proof -
  let ?p = "build_prompt (email_data_of i (content i)) (classified_examples env)"
  from assms have "fst (generate_content env ?p (remote s)) = answer ?p"
    unfolding stable_services_def by meson
  then show ?thesis
    by (auto simp: classify_email_with_gemini_def decision_for_def Let_def
             split: prod.splits option.splits)
qed


lemma process_message_first_run:
  assumes st: "stable_services env inbox_of content answer"
    and inv: "first_run_inv env inbox_of content answer s"
    and cl: "clean_id j"
    and ok: "fst (process_message env j s) = Completed"
  shows "first_run_inv env inbox_of content answer (snd (process_message env j s))"
proof (cases rule: process_message_cases[of j s env])
  case skipped
  with inv show ?thesis by (auto simp: first_run_inv_def)
next
  case (fetch_failed w)
  with ok show ?thesis by simp
next
  case (archived msg w0 w1 w es)
  from stable_get_shrinks[OF st archived(2)] stable_oracle_shrinks[OF st archived(5)]
    stable_modify_shrinks[OF st archived(6)]
  have "inbox_of w \<subseteq> inbox_of (remote s)" by blast
  moreover from stable_modify_removes[OF st archived(6)] have "j \<notin> inbox_of w" .
  moreover from archived(4) have "seen es = {}" by (rule seen_oracle_events)
  ultimately show ?thesis using inv archived(7)
    by (auto simp: first_run_inv_def)
next
  case (archive_failed msg w0 w1 w es)
  with ok show ?thesis by simp
next
  case (kept msg w0 w es)
  from stable_get_shrinks[OF st kept(2)] stable_oracle_shrinks[OF st kept(5)]
  have "inbox_of w \<subseteq> inbox_of (remote s)" by blast
  moreover from kept(4) have "seen es = {}" by (rule seen_oracle_events)
  moreover from inv have wf: "store_wf (inbox_saved_file s)" by (simp add: first_run_inv_def)
  from stored_ids_save_clean[OF wf cl]
  have "load_inbox_saved_ids (save_inbox_id j (inbox_saved_file s))
          = insert j (load_inbox_saved_ids (inbox_saved_file s))"
    by (simp add: load_is_stored)
  ultimately show ?thesis using inv kept(6)
    by (auto simp: first_run_inv_def store_wf_save)
next
  case (undecided msg w0 w es d)
  from stable_get_shrinks[OF st undecided(2)] stable_oracle_shrinks[OF st undecided(7)]
  have "inbox_of w \<subseteq> inbox_of (remote s)" by blast
  moreover from undecided(6) have "seen es = {}" by (rule seen_oracle_events)
  moreover from stable_content[OF st undecided(2)] undecided(3) stable_decision[OF st]
  have "d = decision_for env content answer j" by simp
  with undecided(4,5) have "undecided_for env content answer j" by (simp add: undecided_for_def)
  ultimately show ?thesis using inv undecided(8)
    by (auto simp: first_run_inv_def)
qed

lemma process_messages_first_run:
  assumes st: "stable_services env inbox_of content answer"
    and inv: "first_run_inv env inbox_of content answer s"
    and cl: "\<forall>i \<in> seen (trace (snd (process_messages env js s))). clean_id i"
    and ok: "fst (process_messages env js s) = Completed"
  shows "first_run_inv env inbox_of content answer (snd (process_messages env js s))"
  using inv cl ok
proof (induction js arbitrary: s)
  case Nil
  then show ?case by simp
next
  case (Cons j js)
  obtain out s' where p: "process_message env j s = (out, s')"
    by (cases "process_message env j s")
  with Cons.prems(3) have out: "out = Completed" by (cases out) simp_all
  from process_message_trace_grows[of s env j] p have "j \<in> seen (trace s')" by simp
  moreover from process_messages_trace_grows[of s' env js]
  have "seen (trace s') \<subseteq> seen (trace (snd (process_messages env js s')))"
    by (rule seen_mono)
  ultimately have "clean_id j" using Cons.prems(2) p out by auto
  from process_message_first_run[OF st Cons.prems(1) this] p out
  have "first_run_inv env inbox_of content answer s'" by simp
  from Cons.IH[OF this] Cons.prems(2,3) p out show ?case by simp
qed

lemma loop_body_first_run:
  assumes st: "stable_services env inbox_of content answer"
    and inv: "first_run_inv env inbox_of content answer s"
    and cl: "\<forall>i \<in> seen (trace (snd (loop_body env tok s))). clean_id i"
    and ok: "ErrorLogged \<notin> set (trace (snd (loop_body env tok s)))"
  shows "first_run_inv env inbox_of content answer (snd (loop_body env tok s))"
proof -
  obtain r w where l: "messages_list env tok (remote s) = (r, w)"
    by (cases "messages_list env tok (remote s)")
  let ?s1 = "s\<lparr>remote := w, trace := trace s @ [ListCall tok]\<rparr>"
  from stable_list_shrinks[OF st l] inv
  have s1: "first_run_inv env inbox_of content answer ?s1"
    by (auto simp: first_run_inv_def)
  show ?thesis
  proof (cases r)
    case None
    with l ok show ?thesis by (simp add: loop_body_def)
  next
    case (Some res)
    obtain out s2 where p: "process_messages env (listed res) ?s1 = (out, s2)"
      by (cases "process_messages env (listed res) ?s1")
    show ?thesis
    proof (cases "listed res = []")
      case True
      with l Some s1 show ?thesis by (simp add: loop_body_def)
    next
      case False
      with l Some p ok have out: "out = Completed"
        by (cases out) (auto simp: loop_body_def Let_def)
      with l Some p False have e: "snd (loop_body env tok s) = s2"
        by (auto simp: loop_body_def Let_def split: option.splits)
      with cl p have "\<forall>i \<in> seen (trace (snd (process_messages env (listed res) ?s1))). clean_id i"
        by simp
      from process_messages_first_run[OF st s1 this] p out e show ?thesis by simp
    qed
  qed
qed

lemma inbox_loop_first_run:
  assumes st: "stable_services env inbox_of content answer"
    and inv: "first_run_inv env inbox_of content answer s"
    and cl: "\<forall>i \<in> seen (trace (snd (inbox_loop n env tok s))). clean_id i"
    and ok: "ErrorLogged \<notin> set (trace (snd (inbox_loop n env tok s)))"
  shows "first_run_inv env inbox_of content answer (snd (inbox_loop n env tok s))"
  using inv cl ok
proof (induction n arbitrary: tok s)
  case 0
  then show ?case by simp
next
  case (Suc n)
  obtain c s' where b: "loop_body env tok s = (c, s')"
    by (cases "loop_body env tok s")
  show ?case
  proof (cases c)
    case Break
    with b Suc.prems loop_body_first_run[OF st, of s tok] show ?thesis by simp
  next
    case (Continue t)
    let ?f = "snd (inbox_loop n env (Some t) s')"
    from inbox_loop_trace_grows[of s' n env "Some t"]
    have g: "set (trace s') \<subseteq> set (trace ?f)" .
    then have "seen (trace s') \<subseteq> seen (trace ?f)" by (rule seen_mono)
    with g Suc.prems(2,3) b Continue
    have "\<forall>i \<in> seen (trace (snd (loop_body env tok s))). clean_id i"
      and "ErrorLogged \<notin> set (trace (snd (loop_body env tok s)))"
      by auto
    from loop_body_first_run[OF st Suc.prems(1) this] b
    have "first_run_inv env inbox_of content answer s'" by simp
    from Suc.IH[OF this, of "Some t"] Suc.prems(2,3) b Continue show ?thesis by simp
  qed
qed


lemma process_message_second_run:
  assumes st: "stable_services env inbox_of content answer"
    and dec: "\<forall>i \<in> B. i \<in> L \<or> undecided_for env content answer i"
    and inv: "second_run_inv inbox_of B L s"
    and j: "j \<in> B"
  shows "second_run_inv inbox_of B L (snd (process_message env j s))"
proof (cases rule: process_message_cases[of j s env])
  case skipped
  with inv show ?thesis by (simp add: second_run_inv_def)
next
  case (fetch_failed w)
  with stable_get_shrinks[OF st fetch_failed(2)] inv show ?thesis
    by (auto simp: second_run_inv_def)
next
  case (archived msg w0 w1 w es)
  from stable_content[OF st archived(2)] archived(3) stable_decision[OF st]
  have "decision_for env content answer j = Some ''[ARCHIVE]''" by simp
  with dec j have "j \<in> L" by (auto simp: undecided_for_def)
  with inv archived(1) show ?thesis by (auto simp: second_run_inv_def)
next
  case (archive_failed msg w0 w1 w es)
  from stable_get_shrinks[OF st archive_failed(2)] stable_oracle_shrinks[OF st archive_failed(4)]
    stable_modify_shrinks[OF st archive_failed(5)]
  have "inbox_of w \<subseteq> inbox_of (remote s)" by blast
  with inv archive_failed(6) show ?thesis by (auto simp: second_run_inv_def)
next
  case (kept msg w0 w es)
  from stable_content[OF st kept(2)] kept(3) stable_decision[OF st]
  have "decision_for env content answer j = Some ''[INBOX]''" by simp
  with dec j have "j \<in> L" by (auto simp: undecided_for_def)
  with inv kept(1) show ?thesis by (auto simp: second_run_inv_def)
next
  case (undecided msg w0 w es d)
  from stable_get_shrinks[OF st undecided(2)] stable_oracle_shrinks[OF st undecided(7)]
  have "inbox_of w \<subseteq> inbox_of (remote s)" by blast
  with inv undecided(8) show ?thesis by (auto simp: second_run_inv_def)
qed

lemma process_messages_second_run:
  assumes st: "stable_services env inbox_of content answer"
    and dec: "\<forall>i \<in> B. i \<in> L \<or> undecided_for env content answer i"
    and inv: "second_run_inv inbox_of B L s"
    and js: "set js \<subseteq> B"
  shows "second_run_inv inbox_of B L (snd (process_messages env js s))"
  using inv js
proof (induction js arbitrary: s)
  case Nil
  then show ?case by simp
next
  case (Cons j js)
  obtain out s' where p: "process_message env j s = (out, s')"
    by (cases "process_message env j s")
  from process_message_second_run[OF st dec Cons.prems(1), of j] Cons.prems(2) p
  have k: "second_run_inv inbox_of B L s'" by simp
  show ?case
  proof (cases out)
    case Completed
    with p Cons.IH[OF k] Cons.prems(2) show ?thesis by simp
  next
    case Raised
    with p k show ?thesis by simp
  qed
qed

lemma loop_body_second_run:
  assumes st: "stable_services env inbox_of content answer"
    and dec: "\<forall>i \<in> B. i \<in> L \<or> undecided_for env content answer i"
    and inv: "second_run_inv inbox_of B L s"
  shows "second_run_inv inbox_of B L (snd (loop_body env tok s))"
proof -
  obtain r w where l: "messages_list env tok (remote s) = (r, w)"
    by (cases "messages_list env tok (remote s)")
  let ?s1 = "s\<lparr>remote := w, trace := trace s @ [ListCall tok]\<rparr>"
  from stable_list_shrinks[OF st l] inv
  have s1: "second_run_inv inbox_of B L ?s1"
    by (auto simp: second_run_inv_def)
  show ?thesis
  proof (cases r)
    case None
    with l s1 show ?thesis by (simp add: loop_body_def second_run_inv_def)
  next
    case (Some res)
    with l have "messages_list env tok (remote s) = (Some res, w)" by simp
    from stable_listed[OF st this] inv have "set (listed res) \<subseteq> B"
      by (auto simp: second_run_inv_def)
    from process_messages_second_run[OF st dec s1 this]
    show ?thesis using l Some s1
      by (auto simp: loop_body_def Let_def second_run_inv_def
               split: prod.splits outcome.splits option.splits)
  qed
qed

lemma inbox_loop_second_run:
  assumes st: "stable_services env inbox_of content answer"
    and dec: "\<forall>i \<in> B. i \<in> L \<or> undecided_for env content answer i"
    and inv: "second_run_inv inbox_of B L s"
  shows "second_run_inv inbox_of B L (snd (inbox_loop n env tok s))"
  using inv
proof (induction n arbitrary: tok s)
  case 0
  then show ?case by simp
next
  case (Suc n)
  obtain c s' where b: "loop_body env tok s = (c, s')"
    by (cases "loop_body env tok s")
  with loop_body_second_run[OF st dec Suc.prems, of tok]
  have k: "second_run_inv inbox_of B L s'" by simp
  show ?case
  proof (cases c)
    case Break
    with b k show ?thesis by simp
  next
    case (Continue t)
    with b Suc.IH[OF k, of "Some t"] show ?thesis by simp
  qed
qed

text \<open>
  C4, as the claim states it, fails: the fetch of the first message fails once (a
  transient error), the first run ends there with nothing archived; the inbox is the same
  when the second run starts, Gemini answers as before, and the second run archives both
  messages.
\<close>

theorem second_run_archives_after_transient_error:
  "fst (process_inbox (Suc 0) (demo_env (Some ''[ARCHIVE]'')) (start first_fetch_fails None)) = Finished
   \<and> inbox (remote (snd (process_inbox (Suc 0) (demo_env (Some ''[ARCHIVE]''))
                           (start first_fetch_fails None)))) = inbox first_fetch_fails
   \<and> summary_of (snd (process_inbox (Suc 0) (demo_env (Some ''[ARCHIVE]''))
        (snd (process_inbox (Suc 0) (demo_env (Some ''[ARCHIVE]'')) (start first_fetch_fails None)))))
      = \<lparr>total_processed = 2, emails_archived = 2, emails_kept = 0, total_ids = 0\<rparr>"
  by (simp add: demo_defs first_fetch_fails_def)

text \<open>
  C4, amended: with services that answer in the same way from call to call (the listing
  shows messages of the inbox only, nothing enters the inbox, an archived message leaves
  it, a fetched message has the same content, Gemini gives the same answer to the same
  prompt), from a well-formed store, when the first run met no exception, the identifiers
  it listed are clean and every message that it left in the inbox was listed in it, a
  second run started on what the first run left archives nothing and keeps nothing: its
  two counts are 0, whatever its fuel.
\<close>

theorem second_run_counts_nothing:
  assumes st: "stable_services env inbox_of content answer"
    and service: "gmail_service env"
    and wf: "store_wf (inbox_saved_file s)"
    and fresh: "trace s = []"
    and run1: "s1 = snd (process_inbox fuel1 env s)"
    and noerr: "ErrorLogged \<notin> set (trace s1)"
    and clean: "\<forall>i \<in> seen (trace s1). clean_id i"
    and covered: "inbox_of (remote s1) \<subseteq> seen (trace s1)"
  shows "archived_count (snd (process_inbox fuel2 env s1)) = 0
       \<and> inbox_count (snd (process_inbox fuel2 env s1)) = 0"
proof -
  let ?s0 = "s\<lparr>saved_inbox_ids := load_inbox_saved_ids (inbox_saved_file s),
               processed_count := 0, archived_count := 0, inbox_count := 0\<rparr>"
  from service run1 have s1: "s1 = snd (inbox_loop fuel1 env None ?s0)"
    by (simp add: process_inbox_state)
  from wf fresh have "first_run_inv env inbox_of content answer ?s0"
    by (simp add: first_run_inv_def)
  from inbox_loop_first_run[OF st this, of fuel1 None] clean noerr s1
  have inv1: "first_run_inv env inbox_of content answer s1" by simp
  let ?B = "inbox_of (remote s1)"
  let ?L = "load_inbox_saved_ids (inbox_saved_file s1)"
  from inv1 covered have dec: "\<forall>i \<in> ?B. i \<in> ?L \<or> undecided_for env content answer i"
    by (auto simp: first_run_inv_def)
  let ?t0 = "s1\<lparr>saved_inbox_ids := ?L, processed_count := 0, archived_count := 0, inbox_count := 0\<rparr>"
  have "second_run_inv inbox_of ?B ?L ?t0" by (simp add: second_run_inv_def)
  from inbox_loop_second_run[OF st dec this, of fuel2 None] service
  show ?thesis by (simp add: process_inbox_state second_run_inv_def)
qed

lemma demo_env_stable:
  "stable_services (demo_env a) (\<lambda>w. set (inbox w)) (\<lambda>i. bare_message) (\<lambda>p. a)"
  by (auto simp: stable_services_def demo_env_def listed_def bare_message_def)

theorem second_run_counts_nothing_witness:
  "stable_services (demo_env (Some ''[INBOX]'')) (\<lambda>w. set (inbox w)) (\<lambda>i. bare_message)
     (\<lambda>p. Some ''[INBOX]'')
   \<and> summary_of after_first_run
       = \<lparr>total_processed = 2, emails_archived = 0, emails_kept = 2, total_ids = 2\<rparr>
   \<and> ErrorLogged \<notin> set (trace after_first_run)
   \<and> seen (trace after_first_run) = {''m1'', ''m2''}
   \<and> set (inbox (remote after_first_run)) = {''m1'', ''m2''}
   \<and> archived_count (snd (process_inbox (Suc (Suc 0)) (demo_env (Some ''[INBOX]'')) after_first_run)) = 0
   \<and> inbox_count (snd (process_inbox (Suc (Suc 0)) (demo_env (Some ''[INBOX]'')) after_first_run)) = 0"
proof -
  let ?E = "demo_env (Some ''[INBOX]'')"
  let ?s = "start two_messages None"
  have st: "stable_services ?E (\<lambda>w. set (inbox w)) (\<lambda>i. bare_message) (\<lambda>p. Some ''[INBOX]'')"
    by (rule demo_env_stable)
  have service: "gmail_service ?E" by (simp add: demo_env_def)
  have wf: "store_wf (inbox_saved_file ?s)" by (simp add: start_def store_wf_def)
  have fresh: "trace ?s = []" by (simp add: start_def)
  have run1: "after_first_run = snd (process_inbox (Suc 0) ?E ?s)"
    by (simp add: after_first_run_def)
  have s1: "after_first_run =
      \<lparr>remote = two_messages,
       inbox_saved_file = Some (''m1'' @ [LF] @ ''m2'' @ [LF]),
       trace = [ListCall None, GetCall ''m1'', OracleCall ''m1'' bare_prompt, SaveCall ''m1'',
                GetCall ''m2'', OracleCall ''m2'' bare_prompt, SaveCall ''m2''],
       saved_inbox_ids = {''m2'', ''m1''},
       processed_count = 2, archived_count = 0, inbox_count = 2\<rparr>"
    by (simp add: after_first_run_def demo_defs two_messages_def bare_message_def[symmetric]
        bare_prompt_any)
  have sum: "summary_of after_first_run
       = \<lparr>total_processed = 2, emails_archived = 0, emails_kept = 2, total_ids = 2\<rparr>"
    by (simp add: s1 summary_of_def load_inbox_saved_ids_def text_defs)
  have noerr: "ErrorLogged \<notin> set (trace after_first_run)" by (simp add: s1)
  have sn: "seen (trace after_first_run) = {''m1'', ''m2''}" by (simp add: s1)
  have ib: "set (inbox (remote after_first_run)) = {''m1'', ''m2''}"
    by (simp add: s1 two_messages_def)
  have cl: "\<forall>i \<in> seen (trace after_first_run). clean_id i"
    by (simp add: sn clean_id_def text_defs)
  have cov: "set (inbox (remote after_first_run)) \<subseteq> seen (trace after_first_run)"
    by (simp add: sn ib)
  from second_run_counts_nothing[OF st service wf fresh run1 noerr cl cov, of "Suc (Suc 0)"]
    st sum noerr sn ib
  show ?thesis by simp
qed

end
